theory Spec2Isabelle
  imports Main "HOL-Library.Char_ord" "HOL-Library.List_Lexorder"
begin

section \<open>Data model of radix.go\<close>

text \<open>
  Go strings are byte sequences and an edge label is a byte: both are modelled with
  \<^typ>\<open>char\<close> (an 8-bit value, ordered as an unsigned byte by \<open>Char_ord\<close>), a string
  is a \<^typ>\<open>string\<close>. A value of type \<open>interface{}\<close> is a value of the type
  parameter \<open>'v\<close>; where the source returns \<open>nil\<close> for "no value" the model returns
  \<open>None\<close>.

  The node graph is a tree that is owned hierarchically (no node has two parents), so the
  pointers of the source are modelled by the values they point to. A mutation made through
  a pointer to a child is modelled by writing the changed child back into the edge slot of
  its parent through which it was reached (\<open>writeBack\<close> below).
\<close>

datatype 'v LeafNode = LeafNode (Key: string) (Val: 'v)

datatype 'v node = Node (leaf: "'v LeafNode option") (prefix: string) (edges: "'v edge list")
  and 'v edge = Edge (label: char) (node: "'v node")

record 'v Tree =
  root :: "'v node"
  size_tree :: int

text \<open>
  The panics of the source: the explicit one of \<open>updateEdge\<close>, Go's index check and
  Go's nil check. A function that can panic returns \<open>error + result\<close>.
\<close>

datatype error = ReplacingMissingEdge | IndexOutOfRange | NilDereference

definition isLeaf :: "'v node \<Rightarrow> bool" where
  "isLeaf n = (leaf n \<noteq> None)"

section \<open>The edge table\<close>

text \<open>
  \<open>sort.Search n f\<close> of the Go standard library: binary search for the least index
  \<open>i\<close> in \<open>[0, n)\<close> with \<open>f i\<close>, assuming \<open>f\<close> is monotone; \<open>n\<close> when there is none.
  The loop is the library's: \<open>i, j := 0, n; for i < j { h := (i+j)/2; if !f(h) { i = h+1 }
  else { j = h } }; return i\<close>.
\<close>

function sort_Search_loop :: "(nat \<Rightarrow> bool) \<Rightarrow> nat \<Rightarrow> nat \<Rightarrow> nat" where
  "sort_Search_loop f i j =
     (if i < j then
        (let h = (i + j) div 2 in
         if \<not> f h then sort_Search_loop f (h + 1) j else sort_Search_loop f i h)
      else i)"
  by pat_completeness auto
termination
  by (relation "measure (\<lambda>(f, i, j). j - i)") auto

definition sort_Search :: "nat \<Rightarrow> (nat \<Rightarrow> bool) \<Rightarrow> nat" where
  "sort_Search n f = sort_Search_loop f 0 n"

text \<open>The index computed at the start of \<open>updateEdge\<close>, \<open>getEdge\<close> and \<open>delEdge\<close>.\<close>

definition edgeIndex :: "'v edge list \<Rightarrow> char \<Rightarrow> nat" where
  "edgeIndex es l = sort_Search (length es) (\<lambda>i. label (es ! i) \<ge> l)"

text \<open>
  \<open>edges.Sort\<close> is \<open>sort.Sort\<close> by label. The library's sort is not stable; the model
  sorts stably. The two agree whenever the labels are pairwise distinct, which is the case
  at every call of \<open>addEdge\<close> on a tree whose edge tables are sorted (the label added is one
  that \<open>getEdge\<close> did not find, or the table is the empty or one-element table of a node just
  created).
\<close>

definition Sort_edges :: "'v edge list \<Rightarrow> 'v edge list" where
  "Sort_edges es = sort_key label es"

definition addEdge :: "'v node \<Rightarrow> 'v edge \<Rightarrow> 'v node" where
  "addEdge n e = Node (leaf n) (prefix n) (Sort_edges (edges n @ [e]))"

definition updateEdge :: "'v node \<Rightarrow> char \<Rightarrow> 'v node \<Rightarrow> error + 'v node" where
  "updateEdge n l c =
     (let num = length (edges n); idx = edgeIndex (edges n) l in
      if idx < num \<and> label (edges n ! idx) = l
      then Inr (Node (leaf n) (prefix n) ((edges n)[idx := Edge (label (edges n ! idx)) c]))
      else Inl ReplacingMissingEdge)"

definition getEdge :: "'v node \<Rightarrow> char \<Rightarrow> 'v node option" where
  "getEdge n l =
     (let num = length (edges n); idx = edgeIndex (edges n) l in
      if idx < num \<and> label (edges n ! idx) = l then Some (node (edges n ! idx)) else None)"

definition delEdge :: "'v node \<Rightarrow> char \<Rightarrow> 'v node" where
  "delEdge n l =
     (let num = length (edges n); idx = edgeIndex (edges n) l in
      if idx < num \<and> label (edges n ! idx) = l
      then Node (leaf n) (prefix n) (take idx (edges n) @ drop (Suc idx) (edges n))
      else n)"

text \<open>
  The child that \<open>getEdge n l\<close> returned is a pointer into \<open>n\<close>'s edge table: what the
  source then changes in the child is seen from \<open>n\<close>. \<open>writeBack n l c\<close> is \<open>n\<close> with the
  changed child \<open>c\<close> in the slot that the search for \<open>l\<close> found.
\<close>

definition writeBack :: "'v node \<Rightarrow> char \<Rightarrow> 'v node \<Rightarrow> 'v node" where
  "writeBack n l c =
     (let idx = edgeIndex (edges n) l in
      Node (leaf n) (prefix n) ((edges n)[idx := Edge (label (edges n ! idx)) c]))"

section \<open>String helpers\<close>

text \<open>\<open>strings.HasPrefix s p\<close>: \<open>len(s) >= len(p) && s[:len(p)] == p\<close>.\<close>

definition HasPrefix :: "string \<Rightarrow> string \<Rightarrow> bool" where
  "HasPrefix s p = (length s \<ge> length p \<and> take (length p) s = p)"

function longestPrefix_loop :: "string \<Rightarrow> string \<Rightarrow> nat \<Rightarrow> nat \<Rightarrow> nat" where
  "longestPrefix_loop k1 k2 mx i =
     (if i < mx then (if k1 ! i \<noteq> k2 ! i then i else longestPrefix_loop k1 k2 mx (i + 1))
      else i)"
  by pat_completeness auto
termination
  by (relation "measure (\<lambda>(k1, k2, mx, i). mx - i)") auto

definition longestPrefix :: "string \<Rightarrow> string \<Rightarrow> nat" where
  "longestPrefix k1 k2 =
     (let mx = length k1;
          mx = (if length k2 < mx then length k2 else mx)
      in longestPrefix_loop k1 k2 mx 0)"

section \<open>New, Len\<close>

definition New :: "'v Tree" where
  "New = \<lparr>root = Node None [] [], size_tree = 0\<rparr>"

definition Len :: "'v Tree \<Rightarrow> int" where
  "Len t = size_tree t"

section \<open>Facts about the edge table needed to define the descents\<close>

lemma getEdge_in_edges:
  "getEdge n l = Some c \<Longrightarrow> \<exists>e \<in> set (edges n). label e = l \<and> node e = c"
  by (auto simp: getEdge_def Let_def split: if_splits)

lemma size_node_of_edge: "e \<in> set es \<Longrightarrow> size (node e) < Suc (size_list size es)"
  by (induction es) (auto, (cases e, simp)+)

lemma getEdge_size [termination_simp]: "getEdge n l = Some c \<Longrightarrow> size c < size n"
proof -
  assume "getEdge n l = Some c"
  then obtain e where "e \<in> set (edges n)" and "node e = c"
    using getEdge_in_edges by blast
  then have "size c < Suc (size_list size (edges n))"
    using size_node_of_edge by blast
  then show ?thesis by (cases n) simp
qed

section \<open>Insert\<close>

text \<open>
  One call of \<open>insert_loop n sz s search v\<close> is one iteration of the loop of \<open>Insert\<close>
  with the current node \<open>n\<close>, the counter \<open>t.size = sz\<close> and the rest \<open>search\<close> of the
  key \<open>s\<close>. It returns the node as the iteration and all later ones leave it, the counter
  and the two results of \<open>Insert\<close>. The variable \<open>parent\<close> of the source is the node of
  the iteration that looked the edge up, here \<open>n\<close> itself.
\<close>

function insert_loop ::
  "'v node \<Rightarrow> int \<Rightarrow> string \<Rightarrow> string \<Rightarrow> 'v \<Rightarrow> error + ('v node \<times> int \<times> 'v option \<times> bool)" where
  "insert_loop n sz s search v =
     (if search = [] then
        (case leaf n of
           Some lf \<Rightarrow>
             Inr (Node (Some (LeafNode (Key lf) v)) (prefix n) (edges n), sz, Some (Val lf), True)
         | None \<Rightarrow>
             Inr (Node (Some (LeafNode s v)) (prefix n) (edges n), sz + 1, None, False))
      else
        (case getEdge n (hd search) of
           None \<Rightarrow>
             Inr (addEdge n (Edge (hd search) (Node (Some (LeafNode s v)) search [])),
                  sz + 1, None, False)
         | Some c \<Rightarrow>
             (let commonPrefix = longestPrefix search (prefix c) in
              if commonPrefix = length (prefix c) then
                (case insert_loop c sz s (drop commonPrefix search) v of
                   Inl e \<Rightarrow> Inl e
                 | Inr (c', r) \<Rightarrow> Inr (writeBack n (hd search) c', r))
              else if \<not> commonPrefix < length (prefix c) then Inl IndexOutOfRange
              else
                (let child = Node None (take commonPrefix search) [];
                     child = addEdge child
                               (Edge (prefix c ! commonPrefix)
                                  (Node (leaf c) (drop commonPrefix (prefix c)) (edges c)));
                     lf = LeafNode s v;
                     search' = drop commonPrefix search;
                     child = (if search' = [] then Node (Some lf) (prefix child) (edges child)
                              else addEdge child (Edge (hd search') (Node (Some lf) search' [])))
                 in case updateEdge n (hd search) child of
                      Inl e \<Rightarrow> Inl e
                    | Inr n' \<Rightarrow> Inr (n', sz + 1, None, False)))))"
  by pat_completeness auto
termination
  by (relation "measure (\<lambda>(n, sz, s, search, v). size n)") (auto simp: getEdge_size)

definition Insert :: "'v Tree \<Rightarrow> string \<Rightarrow> 'v \<Rightarrow> error + ('v Tree \<times> 'v option \<times> bool)" where
  "Insert t s v =
     (case insert_loop (root t) (size_tree t) s s v of
        Inl e \<Rightarrow> Inl e
      | Inr (n, sz, r) \<Rightarrow> Inr (\<lparr>root = n, size_tree = sz\<rparr>, r))"

section \<open>Get\<close>

function get_loop :: "'v node \<Rightarrow> string \<Rightarrow> 'v option \<times> bool" where
  "get_loop n search =
     (if search = [] then
        (case leaf n of Some lf \<Rightarrow> (Some (Val lf), True) | None \<Rightarrow> (None, False))
      else
        (case getEdge n (hd search) of
           None \<Rightarrow> (None, False)
         | Some c \<Rightarrow>
             if HasPrefix search (prefix c) then get_loop c (drop (length (prefix c)) search)
             else (None, False)))"
  by pat_completeness auto
termination
  by (relation "measure (\<lambda>(n, search). size n)") (auto simp: getEdge_size)

definition Get :: "'v Tree \<Rightarrow> string \<Rightarrow> 'v option \<times> bool" where
  "Get t s = get_loop (root t) s"

section \<open>Delete, DeletePrefix\<close>

definition mergeChild :: "'v node \<Rightarrow> error + 'v node" where
  "mergeChild n =
     (case edges n of
        [] \<Rightarrow> Inl IndexOutOfRange
      | e # _ \<Rightarrow>
          (let child = node e in
           Inr (Node (leaf child) (prefix n @ prefix child) (edges child))))"

text \<open>
  The loops of \<open>Delete\<close> and \<open>deletePrefix\<close> keep a pointer to the parent of the current
  node and change both. In the model the parent is \<open>None\<close> (Go's \<open>nil\<close>, the current node
  is the root) or \<open>Some (r, p, l)\<close>: the parent \<open>p\<close>, the label \<open>l\<close> of its edge to the
  current node, and \<open>r\<close>, whether \<open>p\<close> is \<open>t.root\<close>. A call returns the topmost node it
  was given, changed: the parent where there is one (\<open>plug\<close>), the current node otherwise.
  \<open>top\<close> is that node unchanged.
\<close>

type_synonym 'v parent = "(bool \<times> 'v node \<times> char) option"

definition plug :: "'v parent \<Rightarrow> 'v node \<Rightarrow> 'v node" where
  "plug par n = (case par of None \<Rightarrow> n | Some (r, p, l) \<Rightarrow> writeBack p l n)"

definition top :: "'v parent \<Rightarrow> 'v node \<Rightarrow> 'v node" where
  "top par n = (case par of None \<Rightarrow> n | Some (r, p, l) \<Rightarrow> p)"

text \<open>
  The block at the label \<open>DELETE\<close>, for the node \<open>n\<close> that stores the key (the caller
  checked \<open>n.isLeaf()\<close>). With a parent, \<open>n\<close> is not the root.
\<close>

definition delete_block ::
  "'v parent \<Rightarrow> 'v node \<Rightarrow> int \<Rightarrow> error + ('v node \<times> int \<times> 'v option \<times> bool)" where
  "delete_block par n sz =
     (case leaf n of
        None \<Rightarrow> Inl NilDereference
      | Some lf \<Rightarrow>
          (let n1 = Node None (prefix n) (edges n) in
           case par of
             None \<Rightarrow> Inr (n1, sz - 1, Some (Val lf), True)
           | Some (r, p, l) \<Rightarrow>
               (case (if length (edges n1) = 0 then Inr (delEdge p l)
                      else if length (edges n1) = 1 then
                        (case mergeChild n1 of Inl e \<Rightarrow> Inl e | Inr n2 \<Rightarrow> Inr (writeBack p l n2))
                      else Inr (writeBack p l n1)) of
                  Inl e \<Rightarrow> Inl e
                | Inr p1 \<Rightarrow>
                    if \<not> r \<and> length (edges p1) = 1 \<and> \<not> isLeaf p1 then
                      (case mergeChild p1 of
                         Inl e \<Rightarrow> Inl e
                       | Inr p2 \<Rightarrow> Inr (p2, sz - 1, Some (Val lf), True))
                    else Inr (p1, sz - 1, Some (Val lf), True))))"

function delete_loop ::
  "'v parent \<Rightarrow> 'v node \<Rightarrow> int \<Rightarrow> string \<Rightarrow> error + ('v node \<times> int \<times> 'v option \<times> bool)" where
  "delete_loop par n sz search =
     (if search = [] then
        (if \<not> isLeaf n then Inr (top par n, sz, None, False)
         else delete_block par n sz)
      else
        (let l = hd search in
         case getEdge n l of
           None \<Rightarrow> Inr (top par n, sz, None, False)
         | Some c \<Rightarrow>
             if HasPrefix search (prefix c) then
               (case delete_loop (Some (par = None, n, l)) c sz (drop (length (prefix c)) search) of
                  Inl e \<Rightarrow> Inl e
                | Inr (n', r) \<Rightarrow> Inr (plug par n', r))
             else Inr (top par n, sz, None, False)))"
  by pat_completeness auto
termination
  by (relation "measure (\<lambda>(par, n, sz, search). size n)") (auto simp: getEdge_size)

definition Delete :: "'v Tree \<Rightarrow> string \<Rightarrow> error + ('v Tree \<times> 'v option \<times> bool)" where
  "Delete t s =
     (case delete_loop None (root t) (size_tree t) s of
        Inl e \<Rightarrow> Inl e
      | Inr (n, sz, r) \<Rightarrow> Inr (\<lparr>root = n, size_tree = sz\<rparr>, r))"

section \<open>The walks\<close>

text \<open>
  A visitor is a Go closure: it may keep state of its own. A \<open>WalkFn\<close> takes the key, the
  value and its state and returns its verdict (\<open>True\<close>: stop the walk) and its new state.
  A \<open>WalkFnPost\<close> returns nothing; it takes the parent, its children and its state and
  returns its new state. A walk returns the state the visitor is left in.
\<close>

type_synonym ('v, 's) WalkFn = "string \<Rightarrow> 'v \<Rightarrow> 's \<Rightarrow> bool \<times> 's"

type_synonym ('v, 's) WalkFnPost = "'v LeafNode \<Rightarrow> 'v LeafNode list \<Rightarrow> 's \<Rightarrow> 's"

text \<open>\<open>walk_edges\<close> is the loop \<open>for _, e := range n.edges\<close> of \<open>recursiveWalk\<close>.\<close>

fun recursiveWalk :: "'v node \<Rightarrow> ('v, 's) WalkFn \<Rightarrow> 's \<Rightarrow> bool \<times> 's"
  and walk_edges :: "'v edge list \<Rightarrow> ('v, 's) WalkFn \<Rightarrow> 's \<Rightarrow> bool \<times> 's" where
  "recursiveWalk (Node lfo p es) fn st =
     (case lfo of
        Some lf \<Rightarrow>
          (case fn (Key lf) (Val lf) st of
             (True, st') \<Rightarrow> (True, st')
           | (False, st') \<Rightarrow> walk_edges es fn st')
      | None \<Rightarrow> walk_edges es fn st)"
| "walk_edges [] fn st = (False, st)"
| "walk_edges (Edge l n # es) fn st =
     (case recursiveWalk n fn st of
        (True, st') \<Rightarrow> (True, st')
      | (False, st') \<Rightarrow> walk_edges es fn st')"

definition Walk :: "'v Tree \<Rightarrow> ('v, 's) WalkFn \<Rightarrow> 's \<Rightarrow> 's" where
  "Walk t fn st = snd (recursiveWalk (root t) fn st)"

function WalkPrefix_loop :: "'v node \<Rightarrow> string \<Rightarrow> ('v, 's) WalkFn \<Rightarrow> 's \<Rightarrow> 's" where
  "WalkPrefix_loop n search fn st =
     (if search = [] then snd (recursiveWalk n fn st)
      else
        (case getEdge n (hd search) of
           None \<Rightarrow> st
         | Some c \<Rightarrow>
             if HasPrefix search (prefix c) then
               WalkPrefix_loop c (drop (length (prefix c)) search) fn st
             else if HasPrefix (prefix c) search then snd (recursiveWalk c fn st)
             else st))"
  by pat_completeness auto
termination
  by (relation "measure (\<lambda>(n, search, fn, st). size n)") (auto simp: getEdge_size)

definition WalkPrefix :: "'v Tree \<Rightarrow> string \<Rightarrow> ('v, 's) WalkFn \<Rightarrow> 's \<Rightarrow> 's" where
  "WalkPrefix t pfx fn st = WalkPrefix_loop (root t) pfx fn st"

text \<open>
  \<open>postOrder_edges\<close> is the loop of \<open>recursiveWalk_postOrder\<close> over \<open>n.edges\<close>; its third
  argument is \<open>all_children\<close>.
\<close>

fun recursiveWalk_postOrder ::
    "'v node \<Rightarrow> ('v, 's) WalkFnPost \<Rightarrow> 's \<Rightarrow> 'v LeafNode list \<times> 's"
  and postOrder_edges ::
    "'v edge list \<Rightarrow> ('v, 's) WalkFnPost \<Rightarrow> 'v LeafNode list \<Rightarrow> 's \<Rightarrow> 'v LeafNode list \<times> 's" where
  "recursiveWalk_postOrder (Node lfo p es) fn st =
     (case postOrder_edges es fn [] st of
        (all_children, st') \<Rightarrow>
          (case lfo of
             None \<Rightarrow> (all_children, st')
           | Some lf \<Rightarrow> ([lf], fn lf all_children st')))"
| "postOrder_edges [] fn all_children st = (all_children, st)"
| "postOrder_edges (Edge l n # es) fn all_children st =
     (case recursiveWalk_postOrder n fn st of
        (children, st') \<Rightarrow> postOrder_edges es fn (all_children @ children) st')"

definition Walk_post :: "'v Tree \<Rightarrow> ('v, 's) WalkFnPost \<Rightarrow> 's \<Rightarrow> 's" where
  "Walk_post t fn st = snd (recursiveWalk_postOrder (root t) fn st)"

section \<open>DeletePrefix\<close>

text \<open>
  \<open>deletePrefix par n sz pfx\<close> is the call \<open>t.deletePrefix(parent, n, prefix)\<close> with
  \<open>t.size = sz\<close>; it returns the topmost node it was given, the counter and the count.
  The closure passed to \<open>recursiveWalk\<close> counts the calls in \<open>subTreeSize\<close> and never stops
  the walk.
\<close>

function deletePrefix ::
  "'v parent \<Rightarrow> 'v node \<Rightarrow> int \<Rightarrow> string \<Rightarrow> error + ('v node \<times> int \<times> int)" where
  "deletePrefix par n sz pfx =
     (if pfx = [] then
        (let subTreeSize = snd (recursiveWalk n (\<lambda>s v cnt. (False, cnt + 1)) 0);
             n1 = Node None (prefix n) []
         in case par of
              None \<Rightarrow> Inr (n1, sz - subTreeSize, subTreeSize)
            | Some (r, p, l) \<Rightarrow>
                (let p1 = writeBack p l n1 in
                 if \<not> r \<and> length (edges p1) = 1 \<and> \<not> isLeaf p1 then
                   (case mergeChild p1 of
                      Inl e \<Rightarrow> Inl e
                    | Inr p2 \<Rightarrow> Inr (p2, sz - subTreeSize, subTreeSize))
                 else Inr (p1, sz - subTreeSize, subTreeSize)))
      else
        (let l = hd pfx in
         case getEdge n l of
           None \<Rightarrow> Inr (top par n, sz, 0)
         | Some child \<Rightarrow>
             if \<not> HasPrefix (prefix child) pfx \<and> \<not> HasPrefix pfx (prefix child) then
               Inr (top par n, sz, 0)
             else
               (let pfx' = (if length (prefix child) > length pfx then drop (length pfx) pfx
                            else drop (length (prefix child)) pfx)
                in case deletePrefix (Some (par = None, n, l)) child sz pfx' of
                     Inl e \<Rightarrow> Inl e
                   | Inr (n', r) \<Rightarrow> Inr (plug par n', r))))"
  by pat_completeness auto
termination
  by (relation "measure (\<lambda>(par, n, sz, pfx). size n)") (auto simp: getEdge_size)

definition DeletePrefix :: "'v Tree \<Rightarrow> string \<Rightarrow> error + ('v Tree \<times> int)" where
  "DeletePrefix t s =
     (case deletePrefix None (root t) (size_tree t) s of
        Inl e \<Rightarrow> Inl e
      | Inr (n, sz, cnt) \<Rightarrow> Inr (\<lparr>root = n, size_tree = sz\<rparr>, cnt))"

section \<open>Longest prefix match and FirstNonIncludedPrefix\<close>

text \<open>
  The loop of the method \<open>longestPrefix\<close> of \<open>Tree\<close> with its variables \<open>last\<close>, \<open>n\<close>
  and \<open>search\<close>; it returns \<open>last\<close> (\<open>last0\<close> on entry to an iteration, \<open>last1\<close> after its first statement).
\<close>

function longestPrefix_scan :: "'v node option \<Rightarrow> 'v node \<Rightarrow> string \<Rightarrow> 'v node option" where
  "longestPrefix_scan last0 n search =
     (let last1 = (if isLeaf n then Some n else last0) in
      if search = [] then last1
      else
        (case getEdge n (hd search) of
           None \<Rightarrow> last1
         | Some c \<Rightarrow>
             if HasPrefix search (prefix c) then
               longestPrefix_scan last1 c (drop (length (prefix c)) search)
             else last1))"
  by pat_completeness auto
termination
  by (relation "measure (\<lambda>(last0, n, search). size n)") (auto simp: getEdge_size)

definition Tree_longestPrefix ::
  "'v Tree \<Rightarrow> string \<Rightarrow> error + (string \<times> 'v option \<times> bool \<times> 'v node option)" where
  "Tree_longestPrefix t s =
     (case longestPrefix_scan None (root t) s of
        Some last1 \<Rightarrow>
          (case leaf last1 of
             None \<Rightarrow> Inl NilDereference
           | Some lf \<Rightarrow> Inr (Key lf, Some (Val lf), True, Some last1))
      | None \<Rightarrow> Inr ([], None, False, None))"

definition LongestPrefix :: "'v Tree \<Rightarrow> string \<Rightarrow> error + (string \<times> 'v option \<times> bool)" where
  "LongestPrefix t s =
     (case Tree_longestPrefix t s of
        Inl e \<Rightarrow> Inl e
      | Inr (key, val, pres, n) \<Rightarrow> Inr (key, val, pres))"

definition invert_binary_label :: "char \<Rightarrow> string" where
  "invert_binary_label s = (if [s] = ''1'' then ''0'' else ''1'')"

definition FirstNonIncludedPrefix :: "'v Tree \<Rightarrow> string \<Rightarrow> error + (string \<times> bool)" where
  "FirstNonIncludedPrefix t s =
     (case Tree_longestPrefix t s of
        Inl e \<Rightarrow> Inl e
      | Inr (key, val, pres, no) \<Rightarrow>
          if pres then
            (case no of
               None \<Rightarrow> Inl NilDereference
             | Some n \<Rightarrow>
                 if length (edges n) = 0 then
                   (case leaf n of None \<Rightarrow> Inl NilDereference | Some lf \<Rightarrow> Inr (Key lf, True))
                 else if length (edges n) = 1 then
                   (case leaf n of
                      None \<Rightarrow> Inl NilDereference
                    | Some lf \<Rightarrow> Inr (Key lf @ invert_binary_label (label (edges n ! 0)), True))
                 else Inr ([], False))
          else Inr ([], False))"

section \<open>Sequences of operations\<close>

datatype 'v op = OpInsert string 'v | OpDelete string | OpDeletePrefix string

fun apply_op :: "'v Tree \<Rightarrow> 'v op \<Rightarrow> error + 'v Tree" where
  "apply_op t (OpInsert s v) = (case Insert t s v of Inl e \<Rightarrow> Inl e | Inr (t', r) \<Rightarrow> Inr t')"
| "apply_op t (OpDelete s) = (case Delete t s of Inl e \<Rightarrow> Inl e | Inr (t', r) \<Rightarrow> Inr t')"
| "apply_op t (OpDeletePrefix s) =
     (case DeletePrefix t s of Inl e \<Rightarrow> Inl e | Inr (t', r) \<Rightarrow> Inr t')"

fun run :: "'v Tree \<Rightarrow> 'v op list \<Rightarrow> error + 'v Tree" where
  "run t [] = Inr t"
| "run t (x # xs) = (case apply_op t x of Inl e \<Rightarrow> Inl e | Inr t' \<Rightarrow> run t' xs)"

section \<open>Notions used to state the properties\<close>

text \<open>The edge table read as a finite map from labels to children.\<close>

definition lookup :: "'v edge list \<Rightarrow> char \<Rightarrow> 'v node option" where
  "lookup es l = map_of (map (\<lambda>e. (label e, node e)) es) l"

text \<open>
  Visitors that record their calls: the log of a walk is the list of the calls it made.
\<close>

definition record_post :: "('v, ('v LeafNode \<times> 'v LeafNode list) list) WalkFnPost" where
  "record_post parent children log = log @ [(parent, children)]"

definition call_post ::
  "('v, 's) WalkFnPost \<Rightarrow> 's \<Rightarrow> 'v LeafNode \<times> 'v LeafNode list \<Rightarrow> 's" where
  "call_post fn st c = fn (fst c) (snd c) st"

text \<open>
  The entries nearest to a node: its own entry if it has one, otherwise the nearest entries
  of its children, in edge order. \<open>nearest_below es\<close> collects them for the children \<open>es\<close>.
\<close>

fun nearest_entries :: "'v node \<Rightarrow> 'v LeafNode list"
  and nearest_below :: "'v edge list \<Rightarrow> 'v LeafNode list" where
  "nearest_entries (Node lfo p es) = (case lfo of Some lf \<Rightarrow> [lf] | None \<Rightarrow> nearest_below es)"
| "nearest_below [] = []"
| "nearest_below (Edge l n # es) = nearest_entries n @ nearest_below es"

text \<open>
  The calls of a post-order walk: those of the children, in edge order, then, for a node
  with an entry, one call with that entry and the nearest entries below the node.
\<close>

fun post_visits :: "'v node \<Rightarrow> ('v LeafNode \<times> 'v LeafNode list) list"
  and post_visits_edges :: "'v edge list \<Rightarrow> ('v LeafNode \<times> 'v LeafNode list) list" where
  "post_visits (Node lfo p es) =
     post_visits_edges es @ (case lfo of None \<Rightarrow> [] | Some lf \<Rightarrow> [(lf, nearest_below es)])"
| "post_visits_edges [] = []"
| "post_visits_edges (Edge l n # es) = post_visits n @ post_visits_edges es"

text \<open>All stored entries of a subtree, parents first (\<open>entries\<close>) and children first.\<close>

fun entries :: "'v node \<Rightarrow> 'v LeafNode list"
  and entries_below :: "'v edge list \<Rightarrow> 'v LeafNode list" where
  "entries (Node lfo p es) = (case lfo of Some lf \<Rightarrow> [lf] | None \<Rightarrow> []) @ entries_below es"
| "entries_below [] = []"
| "entries_below (Edge l n # es) = entries n @ entries_below es"

fun entries_post :: "'v node \<Rightarrow> 'v LeafNode list"
  and entries_post_below :: "'v edge list \<Rightarrow> 'v LeafNode list" where
  "entries_post (Node lfo p es) =
     entries_post_below es @ (case lfo of Some lf \<Rightarrow> [lf] | None \<Rightarrow> [])"
| "entries_post_below [] = []"
| "entries_post_below (Edge l n # es) = entries_post n @ entries_post_below es"

text \<open>
  The calls of a post-order walk as the specification words them: a node with an entry is
  visited with the concatenation of all stored entries found anywhere below it.
\<close>

fun claimed_post_visits :: "'v node \<Rightarrow> ('v LeafNode \<times> 'v LeafNode list) list"
  and claimed_post_visits_edges :: "'v edge list \<Rightarrow> ('v LeafNode \<times> 'v LeafNode list) list" where
  "claimed_post_visits (Node lfo p es) =
     claimed_post_visits_edges es @
     (case lfo of None \<Rightarrow> [] | Some lf \<Rightarrow> [(lf, entries_below es)])"
| "claimed_post_visits_edges [] = []"
| "claimed_post_visits_edges (Edge l n # es) =
     claimed_post_visits n @ claimed_post_visits_edges es"

text \<open>Trees used as concrete inputs.\<close>

definition tree_1_10_100 :: "nat Tree" where
  "tree_1_10_100 =
     \<lparr>root = Node None []
        [Edge CHR ''1'' (Node (Some (LeafNode ''1'' 1)) ''1''
           [Edge CHR ''0'' (Node (Some (LeafNode ''10'' 2)) ''0''
              [Edge CHR ''0'' (Node (Some (LeafNode ''100'' 3)) ''0'' [])])])],
      size_tree = 3\<rparr>"

definition tree_00_000 :: "nat Tree" where
  "tree_00_000 =
     \<lparr>root = Node None []
        [Edge CHR ''0'' (Node (Some (LeafNode ''00'' 1)) ''00''
           [Edge CHR ''0'' (Node (Some (LeafNode ''000'' 2)) ''0'' [])])],
      size_tree = 2\<rparr>"

definition tree_a_ab :: "nat Tree" where
  "tree_a_ab =
     \<lparr>root = Node None []
        [Edge CHR ''a'' (Node (Some (LeafNode ''a'' 1)) ''a''
           [Edge CHR ''b'' (Node (Some (LeafNode ''ab'' 2)) ''b'' [])])],
      size_tree = 2\<rparr>"

text \<open>
  The parent handed to \<open>delete_loop\<close> and \<open>deletePrefix\<close> is the node whose edge \<open>l\<close>
  leads to the current node.
\<close>

definition par_ok :: "'v parent \<Rightarrow> 'v node \<Rightarrow> bool" where
  "par_ok par n = (case par of None \<Rightarrow> True | Some (r, p, l) \<Rightarrow> getEdge p l = Some n)"

text \<open>
  The descent of \<open>deletePrefix\<close> without its effects: \<open>prefix_mismatch n pfx\<close> holds when
  the descent from \<open>n\<close> ends in one of the two \<open>return 0\<close> of the source: no edge for the
  next symbol, or an edge whose prefix and the rest of \<open>pfx\<close> are not one a prefix of the
  other.
\<close>

function prefix_mismatch :: "'v node \<Rightarrow> string \<Rightarrow> bool" where
  "prefix_mismatch n pfx =
     (if pfx = [] then False
      else
        (case getEdge n (hd pfx) of
           None \<Rightarrow> True
         | Some child \<Rightarrow>
             if \<not> HasPrefix (prefix child) pfx \<and> \<not> HasPrefix pfx (prefix child) then True
             else prefix_mismatch child
                    (if length (prefix child) > length pfx then drop (length pfx) pfx
                     else drop (length (prefix child)) pfx)))"
  by pat_completeness auto
termination
  by (relation "measure (\<lambda>(n, pfx). size n)") (auto simp: getEdge_size)

declare prefix_mismatch.simps [simp del]

text \<open>
  Invariant 3 of the specification below a node: every node below it has a stored entry or
  at least two children.
\<close>

fun compressed :: "'v node \<Rightarrow> bool"
  and compressed_edges :: "'v edge list \<Rightarrow> bool" where
  "compressed (Node lfo p es) = compressed_edges es"
| "compressed_edges [] = True"
| "compressed_edges (Edge l c # es) =
     ((isLeaf c \<or> length (edges c) \<ge> 2) \<and> compressed c \<and> compressed_edges es)"

definition tree_ab :: "nat Tree" where
  "tree_ab = \<lparr>root = Node None [] [Edge CHR ''a'' (Node (Some (LeafNode ''ab'' 1)) ''ab'' [])],
              size_tree = 1\<rparr>"

text \<open>
  Invariant 1 of the specification, for a whole subtree: in every edge table the labels are
  strictly ascending.
\<close>

fun sorted_node :: "'v node \<Rightarrow> bool"
  and sorted_edges :: "'v edge list \<Rightarrow> bool" where
  "sorted_node (Node lfo p es) = (sorted_wrt (<) (map label es) \<and> sorted_edges es)"
| "sorted_edges [] = True"
| "sorted_edges (Edge l c # es) = (sorted_node c \<and> sorted_edges es)"

text \<open>
  What \<open>Get\<close> does once it has selected the child \<open>c\<close> for the rest \<open>k\<close> of the key.
\<close>

definition get_via :: "'v node \<Rightarrow> string \<Rightarrow> 'v option \<times> bool" where
  "get_via c k =
     (if HasPrefix k (prefix c) then get_loop c (drop (length (prefix c)) k) else (None, False))"

text \<open>The node that replaces the child when an edge is split.\<close>

definition split_node :: "'v node \<Rightarrow> string \<Rightarrow> string \<Rightarrow> 'v \<Rightarrow> 'v node" where
  "split_node c s search v =
     (let cp = longestPrefix search (prefix c);
          old = Edge (prefix c ! cp) (Node (leaf c) (drop cp (prefix c)) (edges c));
          new = Edge (search ! cp) (Node (Some (LeafNode s v)) (drop cp search) [])
      in if drop cp search = [] then Node (Some (LeafNode s v)) (take cp search) [old]
         else Node None (take cp search)
                (if prefix c ! cp \<le> search ! cp then [old, new] else [new, old]))"

text \<open>A visitor that never asks to stop, and one call of a visitor on a stored entry.\<close>

definition never_stops :: "('v, 's) WalkFn \<Rightarrow> bool" where
  "never_stops fn = (\<forall>k v st. \<not> fst (fn k v st))"

definition call_walk :: "('v, 's) WalkFn \<Rightarrow> 's \<Rightarrow> 'v LeafNode \<Rightarrow> 's" where
  "call_walk fn st lf = snd (fn (Key lf) (Val lf) st)"

text \<open>The node \<open>mergeChild\<close> leaves, when \<open>n\<close> has a child to merge with.\<close>

definition merged :: "'v node \<Rightarrow> 'v node" where
  "merged n =
     (case edges n of
        [] \<Rightarrow> n
      | e # _ \<Rightarrow> Node (leaf (node e)) (prefix n @ prefix (node e)) (edges (node e)))"

text \<open>Invariant 5: the counter is the number of nodes with a stored entry.\<close>

definition size_ok :: "'v Tree \<Rightarrow> bool" where
  "size_ok t = (size_tree t = int (length (entries (root t))))"

text \<open>What the block at \<open>DELETE\<close> and the end of \<open>deletePrefix\<close> do to the parent.\<close>

definition merge_parent :: "bool \<Rightarrow> 'v node \<Rightarrow> 'v node" where
  "merge_parent r p1 = (if \<not> r \<and> length (edges p1) = 1 \<and> \<not> isLeaf p1 then merged p1 else p1)"

text \<open>The keys that \<open>Get\<close> finds, and a sequence of \<open>Insert\<close> calls.\<close>

definition stored_keys :: "'v Tree \<Rightarrow> string set" where
  "stored_keys t = {k. snd (Get t k)}"

definition insert_ops :: "(string \<times> 'v) list \<Rightarrow> 'v op list" where
  "insert_ops kvs = map (\<lambda>(k, v). OpInsert k v) kvs"

text \<open>
  Invariants 2 and 4 of the specification together with what \<open>Insert\<close> stores: below a
  node whose key path is \<open>q\<close>, the label of every edge is the first symbol of its
  child's prefix, which is not empty, and the key of every stored entry is the path to its
  node (the concatenation of the prefixes from the root). The prefix of the node itself,
  which no descent reads at the root, is not constrained.
\<close>

fun keyed_at :: "string \<Rightarrow> 'v node \<Rightarrow> bool"
  and keyed_edges :: "string \<Rightarrow> 'v edge list \<Rightarrow> bool" where
  "keyed_at q (Node lfo p es) =
     ((case lfo of None \<Rightarrow> True | Some lf \<Rightarrow> Key lf = q) \<and> keyed_edges q es)"
| "keyed_edges q [] = True"
| "keyed_edges q (Edge l c # es) =
     (prefix c \<noteq> [] \<and> hd (prefix c) = l \<and> keyed_at (q @ prefix c) c \<and> keyed_edges q es)"

text \<open>A well-formed tree: invariant 1 and the invariant above, from the root.\<close>

definition wf_tree :: "'v Tree \<Rightarrow> bool" where
  "wf_tree t = (sorted_node (root t) \<and> keyed_at [] (root t))"

text \<open>The visitor that records the keys it is called with and never stops the walk.\<close>

definition record_keys :: "('v, string list) WalkFn" where
  "record_keys k v log = (False, log @ [k])"

text \<open>
  The descent of \<open>WalkPrefix\<close> without the walk: \<open>walk_descent_fails n search\<close> holds
  when the loop ends in one of its two \<open>break\<close>.
\<close>

function walk_descent_fails :: "'v node \<Rightarrow> string \<Rightarrow> bool" where
  "walk_descent_fails n search =
     (if search = [] then False
      else
        (case getEdge n (hd search) of
           None \<Rightarrow> True
         | Some c \<Rightarrow>
             if HasPrefix search (prefix c) then
               walk_descent_fails c (drop (length (prefix c)) search)
             else if HasPrefix (prefix c) search then False
             else True))"
  by pat_completeness auto
termination
  by (relation "measure (\<lambda>(n, search). size n)") (auto simp: getEdge_size)

declare walk_descent_fails.simps [simp del]

text \<open>
  The invariants as \<open>delete_loop\<close> and \<open>deletePrefix\<close> need them, for the topmost node
  \<open>m\<close> that a call is given: \<open>m\<close> is the root (\<open>r\<close>) with key path \<open>q\<close>, or it is
  the child for the label \<open>lp\<close> of a node with key path \<open>q\<close>.
\<close>

definition path_of :: "bool \<Rightarrow> string \<Rightarrow> 'v node \<Rightarrow> string" where
  "path_of r q m = (if r then q else q @ prefix m)"

definition inv_top :: "bool \<Rightarrow> string \<Rightarrow> char \<Rightarrow> 'v node \<Rightarrow> bool" where
  "inv_top r q lp m =
     (sorted_node m \<and> (\<not> r \<longrightarrow> prefix m \<noteq> [] \<and> hd (prefix m) = lp) \<and>
      keyed_at (path_of r q m) m)"

definition par_inv :: "'v parent \<Rightarrow> 'v node \<Rightarrow> bool \<Rightarrow> string \<Rightarrow> char \<Rightarrow> bool" where
  "par_inv par n r q lp =
     (case par of
        None \<Rightarrow> r \<and> inv_top True q lp n
      | Some (r', p, l) \<Rightarrow> r' = r \<and> inv_top r q lp p \<and> getEdge p l = Some n)"

text \<open>The variable \<open>last\<close> of \<open>longestPrefix\<close> is \<open>nil\<close> or a node with a stored entry.\<close>

definition last_ok :: "'v node option \<Rightarrow> bool" where
  "last_ok x = (case x of None \<Rightarrow> True | Some m \<Rightarrow> isLeaf m)"



text \<open>
  Invariant 3 for the topmost node \<open>m\<close> that a call is given: every node below \<open>m\<close> has
  a stored entry or at least two children, and so has \<open>m\<close> itself unless it is the root
  (\<open>r\<close>).
\<close>

definition node_ok :: "'v node \<Rightarrow> bool" where
  "node_ok c = (isLeaf c \<or> 2 \<le> length (edges c))"

definition cinv :: "bool \<Rightarrow> 'v node \<Rightarrow> bool" where
  "cinv r m = (compressed m \<and> (\<not> r \<longrightarrow> node_ok m))"

definition par_cinv :: "'v parent \<Rightarrow> 'v node \<Rightarrow> bool \<Rightarrow> bool" where
  "par_cinv par n r =
     (case par of
        None \<Rightarrow> r \<and> cinv True n
      | Some (r', p, l) \<Rightarrow> r' = r \<and> cinv r p \<and> getEdge p l = Some n)"

fun is_DeletePrefix :: "'v op \<Rightarrow> bool" where
  "is_DeletePrefix (OpDeletePrefix p) = True"
| "is_DeletePrefix _ = False"



text \<open>
  The descent of \<open>deletePrefix\<close> without its effects, again: the node at which the call
  finds the prefix exhausted (the node whose subtree it deletes), \<open>None\<close> when the descent
  ends in a \<open>return 0\<close>.
\<close>

function deletePrefix_target :: "'v node \<Rightarrow> string \<Rightarrow> 'v node option" where
  "deletePrefix_target n pfx =
     (if pfx = [] then Some n
      else
        (case getEdge n (hd pfx) of
           None \<Rightarrow> None
         | Some child \<Rightarrow>
             if \<not> HasPrefix (prefix child) pfx \<and> \<not> HasPrefix pfx (prefix child) then None
             else deletePrefix_target child
                    (if length (prefix child) > length pfx then drop (length pfx) pfx
                     else drop (length (prefix child)) pfx)))"
  by pat_completeness auto
termination
  by (relation "measure (\<lambda>(n, pfx). size n)") (auto simp: getEdge_size)

declare deletePrefix_target.simps [simp del]

declare sort_Search_loop.simps [simp del] longestPrefix_loop.simps [simp del]
  insert_loop.simps [simp del] get_loop.simps [simp del] delete_loop.simps [simp del]
  deletePrefix.simps [simp del] WalkPrefix_loop.simps [simp del]
  longestPrefix_scan.simps [simp del]

section \<open>The binary search and the edge table on sorted tables\<close>

lemma sort_Search_loop_least:
  "(\<forall>a b. a \<le> b \<and> b < n \<and> f a \<longrightarrow> f b) \<Longrightarrow> i \<le> j \<Longrightarrow> j \<le> n \<Longrightarrow>
     (\<forall>k<i. \<not> f k) \<Longrightarrow> (\<forall>k. j \<le> k \<and> k < n \<longrightarrow> f k) \<Longrightarrow>
         sort_Search_loop f i j \<le> n \<and>
         (\<forall>k<sort_Search_loop f i j. \<not> f k) \<and>
         (\<forall>k. sort_Search_loop f i j \<le> k \<and> k < n \<longrightarrow> f k)"
proof (induction f i j rule: sort_Search_loop.induct)
  case (1 f i j)
  note mono = "1.prems"(1)
  show ?case
  proof (cases "i < j")
    case False
    with "1.prems" have "i = j" by simp
    moreover have "sort_Search_loop f i j = i"
      using False by (subst sort_Search_loop.simps) simp
    ultimately show ?thesis using "1.prems" by simp
  next
    case True
    define h where "h = (i + j) div 2"
    have h: "i \<le> h" "h < j" using True by (auto simp: h_def)
    have hn: "h < n" using h "1.prems"(3) by simp
    show ?thesis
    proof (cases "f h")
      case fh: True
      have up: "\<forall>k. h \<le> k \<and> k < n \<longrightarrow> f k" using fh mono by blast
      have eq: "sort_Search_loop f i j = sort_Search_loop f i h"
        using True fh by (subst sort_Search_loop.simps) (simp add: h_def Let_def)
      have "\<not> \<not> f h" using fh by simp
      have "h \<le> n" using hn by simp
      from "1.IH"(2) [OF True h_def \<open>\<not> \<not> f h\<close> mono h(1) this "1.prems"(4) up]
      show ?thesis unfolding eq .
    next
      case nfh: False
      have low: "\<forall>k<h + 1. \<not> f k"
      proof (intro allI impI)
        fix k assume "k < h + 1"
        then have "k \<le> h" by simp
        then show "\<not> f k" using mono hn nfh by blast
      qed
      have eq: "sort_Search_loop f i j = sort_Search_loop f (h + 1) j"
        using True nfh by (subst sort_Search_loop.simps) (simp add: h_def Let_def)
      have "h + 1 \<le> j" using h by simp
      from "1.IH"(1) [OF True h_def nfh mono this "1.prems"(3) low "1.prems"(5)]
      show ?thesis unfolding eq .
    qed
  qed
qed

lemma edgeIndex_spec:
  assumes "sorted (map label es)"
  shows "edgeIndex es l \<le> length es \<and> (\<forall>k<edgeIndex es l. label (es ! k) < l) \<and>
         (\<forall>k. edgeIndex es l \<le> k \<and> k < length es \<longrightarrow> l \<le> label (es ! k))"
proof -
  let ?f = "\<lambda>i. label (es ! i) \<ge> l"
  have mono: "\<forall>a b. a \<le> b \<and> b < length es \<and> ?f a \<longrightarrow> ?f b"
  proof (intro allI impI)
    fix a b assume h: "a \<le> b \<and> b < length es \<and> ?f a"
    then have "map label es ! a \<le> map label es ! b"
      using assms by (simp add: sorted_iff_nth_mono del: nth_map)
    then have "label (es ! a) \<le> label (es ! b)" using h by simp
    moreover have "l \<le> label (es ! a)" using h by simp
    ultimately show "?f b" by (rule order_trans [rotated])
  qed
  have "sort_Search_loop ?f 0 (length es) \<le> length es \<and>
         (\<forall>k<sort_Search_loop ?f 0 (length es). \<not> ?f k) \<and>
         (\<forall>k. sort_Search_loop ?f 0 (length es) \<le> k \<and> k < length es \<longrightarrow> ?f k)"
    by (rule sort_Search_loop_least [OF mono]) auto
  then show ?thesis unfolding edgeIndex_def sort_Search_def not_le .
qed

lemma lookup_Nil [simp]: "lookup [] l = None"
  by (simp add: lookup_def)

lemma lookup_Cons [simp]:
  "lookup (e # es) l = (if label e = l then Some (node e) else lookup es l)"
  by (auto simp: lookup_def)

lemma lookup_append:
  "lookup (as @ bs) l = (case lookup as l of Some c \<Rightarrow> Some c | None \<Rightarrow> lookup bs l)"
  by (induction as) auto

lemma lookup_None_iff: "lookup es l = None \<longleftrightarrow> l \<notin> set (map label es)"
  by (induction es) auto

lemma lookup_Some_in: "lookup es l = Some c \<Longrightarrow> Edge l c \<in> set es"
  by (induction es) (auto split: if_splits)

lemma edge_nth_split:
  assumes "idx < length es"
  shows "es = take idx es @ Edge (label (es ! idx)) (node (es ! idx)) # drop (Suc idx) es"
  using assms by (simp add: id_take_nth_drop [symmetric])

lemma getEdge_split:
  assumes "getEdge n l = Some c"
  shows "\<exists>as bs. edges n = as @ Edge l c # bs \<and> edgeIndex (edges n) l = length as"
proof -
  let ?idx = "edgeIndex (edges n) l"
  from assms have i: "?idx < length (edges n)" and lb: "label (edges n ! ?idx) = l"
    and nd: "node (edges n ! ?idx) = c"
    by (auto simp: getEdge_def Let_def split: if_splits)
  have "edges n = take ?idx (edges n) @ Edge l c # drop (Suc ?idx) (edges n)"
    using edge_nth_split [OF i] lb nd by simp
  moreover have "length (take ?idx (edges n)) = ?idx" using i by simp
  ultimately show ?thesis by metis
qed

lemma writeBack_split:
  assumes "edges n = as @ Edge l c # bs" "edgeIndex (edges n) l = length as"
  shows "writeBack n l c' = Node (leaf n) (prefix n) (as @ Edge l c' # bs)"
  using assms by (simp add: writeBack_def Let_def)

lemma updateEdge_split:
  assumes "edges n = as @ Edge l c # bs" "edgeIndex (edges n) l = length as"
  shows "updateEdge n l c' = Inr (Node (leaf n) (prefix n) (as @ Edge l c' # bs))"
  using assms by (simp add: updateEdge_def Let_def)

lemma delEdge_split:
  assumes "edges n = as @ Edge l c # bs" "edgeIndex (edges n) l = length as"
  shows "delEdge n l = Node (leaf n) (prefix n) (as @ bs)"
  using assms by (simp add: delEdge_def Let_def)

lemma writeBack_same: "getEdge n l = Some c \<Longrightarrow> writeBack n l c = n"
  using getEdge_split [of n l c] writeBack_split [of n _ l c _ c] by (cases n) auto

lemma getEdge_lookup:
  assumes "sorted_wrt (<) (map label (edges n))"
  shows "getEdge n l = lookup (edges n) l"
proof -
  let ?es = "edges n"
  let ?idx = "edgeIndex ?es l"
  have st: "sorted (map label ?es)" using assms by (rule strict_sorted_imp_sorted)
  note spec = edgeIndex_spec [OF st, of l]
  have dist: "distinct (map label ?es)" using assms strict_sorted_iff by blast
  show ?thesis
  proof (cases "?idx < length ?es \<and> label (?es ! ?idx) = l")
    case True
    then have g: "getEdge n l = Some (node (?es ! ?idx))" by (simp add: getEdge_def Let_def)
    have "(l, node (?es ! ?idx)) \<in> set (map (\<lambda>e. (label e, node e)) ?es)"
      using True by (metis (mono_tags, lifting) image_eqI nth_mem set_map)
    moreover have "distinct (map fst (map (\<lambda>e. (label e, node e)) ?es))"
      using dist by (simp add: comp_def)
    ultimately have "lookup ?es l = Some (node (?es ! ?idx))"
      unfolding lookup_def by (rule map_of_is_SomeI [rotated])
    with g show ?thesis by simp
  next
    case False
    then have g: "getEdge n l = None" by (auto simp: getEdge_def Let_def)
    have "l \<notin> set (map label ?es)"
    proof
      assume "l \<in> set (map label ?es)"
      then obtain k where k: "k < length ?es" "label (?es ! k) = l"
        by (metis in_set_conv_nth length_map nth_map)
      have "\<not> k < ?idx" using spec k by auto
      then have ik: "?idx \<le> k" by simp
      then have il: "?idx < length ?es" using k by simp
      with False have ne: "label (?es ! ?idx) \<noteq> l" by simp
      have "l \<le> label (?es ! ?idx)" using spec il by auto
      with ne have lt: "l < label (?es ! ?idx)" by simp
      have "?idx \<noteq> k" using ne k by auto
      with ik have "?idx < k" by simp
      then have "map label ?es ! ?idx < map label ?es ! k"
        using assms k(1) by (simp add: sorted_wrt_iff_nth_less del: nth_map)
      then have "label (?es ! ?idx) < l" using k il by simp
      with lt show False by simp
    qed
    then have "lookup ?es l = None" by (simp add: lookup_None_iff)
    with g show ?thesis by simp
  qed
qed

section \<open>The empty key\<close>

text \<open>
  C10. The empty string is a valid key, stored at the root: on a tree that does not contain
  it, \<open>Insert("", v)\<close> returns \<open>(nil, false)\<close> and adds one to \<open>Len()\<close>, and \<open>Get("")\<close>
  then returns \<open>(v, true)\<close>.
\<close>

theorem empty_key_at_root:
  assumes "Get t [] = (None, False)"
  shows "\<exists>t'. Insert t [] v = Inr (t', None, False) \<and> Len t' = Len t + 1 \<and>
              Get t' [] = (Some v, True)"
proof -
  from assms have "leaf (root t) = None"
    by (simp add: Get_def get_loop.simps split: option.splits)
  then show ?thesis
    by (simp add: Insert_def insert_loop.simps Len_def Get_def get_loop.simps)
qed

theorem empty_key_at_root_witness:
  "Get (New :: nat Tree) [] = (None, False) \<and>
   (\<exists>t'. Insert (New :: nat Tree) [] 7 = Inr (t', None, False) \<and> Len t' = Len (New :: nat Tree) + 1 \<and>
         Get t' [] = (Some 7, True))"
proof -
  have h: "Get (New :: nat Tree) [] = (None, False)"
    by (simp add: Get_def New_def get_loop.simps)
  show ?thesis using h empty_key_at_root [OF h, of 7] by simp
qed

section \<open>Evaluating the operations on concrete trees\<close>

lemmas eval_simps = Insert_def insert_loop.simps New_def getEdge_def edgeIndex_def
  sort_Search_def sort_Search_loop.simps addEdge_def Sort_edges_def updateEdge_def writeBack_def
  longestPrefix_def longestPrefix_loop.simps Let_def HasPrefix_def
  FirstNonIncludedPrefix_def Tree_longestPrefix_def longestPrefix_scan.simps isLeaf_def
  invert_binary_label_def

section \<open>The post-order walk\<close>

lemma postOrder_visits:
  "recursiveWalk_postOrder n fn st = (nearest_entries n, foldl (call_post fn) st (post_visits n))"
  "postOrder_edges es fn acc st =
     (acc @ nearest_below es, foldl (call_post fn) st (post_visits_edges es))"
  by (induction n fn st and es fn acc st rule: recursiveWalk_postOrder_postOrder_edges.induct)
     (auto simp: call_post_def split: option.splits)

lemma post_visits_parents:
  "map fst (post_visits (n :: 'v node)) = entries_post n"
  "map fst (post_visits_edges (es :: 'v edge list)) = entries_post_below es"
  by (induction n and es rule: post_visits_post_visits_edges.induct) (auto split: option.splits)

lemma foldl_record_post: "foldl (call_post record_post) acc xs = acc @ xs"
  by (induction xs arbitrary: acc) (auto simp: call_post_def record_post_def)

text \<open>
  C3, as the code has it. For every tree and every visitor, \<open>Walk_post\<close> makes exactly the
  calls \<open>post_visits\<close>, in that order: one call for each node that carries a stored entry,
  children before parents, with the node's own entry as the parent argument and, as the
  children argument, the entries nearest below the node (for each child in edge order: its
  entry if it has one, otherwise the nearest entries below that child). A node without an
  entry triggers no call and hands the nearest entries below it upward. For the keys
  \<open>100010\<close>, \<open>1000101\<close>, \<open>1000100\<close> the visitor is called three times, and the call for
  \<open>100010\<close> gets the other two entries.
\<close>

theorem Walk_post_calls:
  "Walk_post t fn st = foldl (call_post fn) st (post_visits (root t)) \<and>
   Walk_post t record_post [] = post_visits (root t) \<and>
   map fst (Walk_post t record_post []) = entries_post (root t) \<and>
   fst (recursiveWalk_postOrder (root t) fn st) = nearest_entries (root t) \<and>
   (\<exists>t'. run New [OpInsert ''100010'' v1, OpInsert ''1000101'' v2, OpInsert ''1000100'' v3] = Inr t' \<and>
      Walk_post t' record_post [] =
        [(LeafNode ''1000100'' v3, []), (LeafNode ''1000101'' v2, []),
         (LeafNode ''100010'' v1, [LeafNode ''1000100'' v3, LeafNode ''1000101'' v2])])"
  by (simp add: Walk_post_def postOrder_visits post_visits_parents foldl_record_post eval_simps)

theorem Walk_post_calls_witness:
  "Walk_post tree_1_10_100 record_post [] =
     [(LeafNode ''100'' 3, []), (LeafNode ''10'' 2, [LeafNode ''100'' 3]),
      (LeafNode ''1'' 1, [LeafNode ''10'' 2])]"
proof -
  have "Walk_post tree_1_10_100 record_post [] = post_visits (root tree_1_10_100)"
    using Walk_post_calls [of tree_1_10_100 record_post "[]" "1::nat" "2::nat" "3::nat"]
    by blast
  then show ?thesis by (simp add: tree_1_10_100_def)
qed

text \<open>
  C3 as stated fails: after inserting \<open>1\<close>, \<open>10\<close> and \<open>100\<close> the call for \<open>1\<close> gets
  the entry of \<open>10\<close> only, not all the entries stored below it.
\<close>

theorem Walk_post_counterexample:
  "run New [OpInsert ''1'' 1, OpInsert ''10'' 2, OpInsert ''100'' 3] = Inr tree_1_10_100 \<and>
   Walk_post tree_1_10_100 record_post [] =
     [(LeafNode ''100'' 3, []), (LeafNode ''10'' 2, [LeafNode ''100'' 3]),
      (LeafNode ''1'' 1, [LeafNode ''10'' 2])] \<and>
   claimed_post_visits (root tree_1_10_100) =
     [(LeafNode ''100'' 3, []), (LeafNode ''10'' 2, [LeafNode ''100'' 3]),
      (LeafNode ''1'' 1, [LeafNode ''10'' 2, LeafNode ''100'' 3])] \<and>
   Walk_post tree_1_10_100 record_post [] \<noteq> claimed_post_visits (root tree_1_10_100)"
  by (simp add: eval_simps tree_1_10_100_def Walk_post_def record_post_def)

section \<open>FirstNonIncludedPrefix\<close>

lemma longestPrefix_scan_isLeaf:
  "last_ok last0 \<Longrightarrow> longestPrefix_scan last0 n search = Some m \<Longrightarrow> isLeaf m"
proof (induction last0 n search rule: longestPrefix_scan.induct)
  case (1 last0 n search)
  let ?last1 = "if isLeaf n then Some n else last0"
  have ok: "last_ok ?last1" using "1.prems"(1) by (simp add: last_ok_def)
  show ?case
  proof (cases "search = []")
    case True
    with "1.prems"(2) have "?last1 = Some m"
      by (subst (asm) longestPrefix_scan.simps) (simp add: Let_def)
    with ok show ?thesis by (simp add: last_ok_def split: if_splits)
  next
    case False
    show ?thesis
    proof (cases "getEdge n (hd search)")
      case None
      with False "1.prems"(2) have "?last1 = Some m"
        by (subst (asm) longestPrefix_scan.simps) (simp add: Let_def)
      with ok show ?thesis by (simp add: last_ok_def split: if_splits)
    next
      case (Some c)
      show ?thesis
      proof (cases "HasPrefix search (prefix c)")
        case True
        with False Some "1.prems"(2)
        have "longestPrefix_scan ?last1 c (drop (length (prefix c)) search) = Some m"
          by (subst (asm) longestPrefix_scan.simps) (simp add: Let_def)
        from "1.IH" [OF refl False Some True ok this] show ?thesis .
      next
        case nh: False
        with False Some "1.prems"(2) have "?last1 = Some m"
          by (subst (asm) longestPrefix_scan.simps) (simp add: Let_def)
        with ok show ?thesis by (simp add: last_ok_def split: if_splits)
      qed
    qed
  qed
qed

lemma FirstNonIncludedPrefix_general:
  assumes "longestPrefix_scan None (root t) s = Some n"
  shows "\<exists>lf. leaf n = Some lf \<and>
      FirstNonIncludedPrefix t s =
        (if length (edges n) = 0 then Inr (Key lf, True)
         else if length (edges n) = 1
           then Inr (Key lf @ (if label (edges n ! 0) = CHR ''1'' then ''0'' else ''1''), True)
         else Inr ([], False))"
proof -
  have "isLeaf n" using longestPrefix_scan_isLeaf [OF _ assms] by (simp add: last_ok_def)
  then obtain lf where lf: "leaf n = Some lf" by (auto simp: isLeaf_def)
  show ?thesis using assms lf
    by (simp add: FirstNonIncludedPrefix_def Tree_longestPrefix_def invert_binary_label_def)
qed

text \<open>
  C6. When the longest-prefix-match node \<open>n\<close> of the query exists, it carries an entry and
  \<open>FirstNonIncludedPrefix\<close> returns: \<open>n\<close>'s key and true when \<open>n\<close> has no child; \<open>n\<close>'s
  key followed by the complement of the label of its child and true when \<open>n\<close> has exactly
  one child, labelled \<open>0\<close> or \<open>1\<close>; the empty string and false when \<open>n\<close> has two children.
  After inserting \<open>00\<close> and \<open>000\<close> the query \<open>00\<close> returns \<open>("001", true)\<close>, and after
  inserting \<open>001\<close> as well it returns \<open>("", false)\<close>.
\<close>

theorem FirstNonIncludedPrefix_binary:
  "(\<forall>n. longestPrefix_scan None (root t) s = Some n \<longrightarrow>
      (\<exists>lf. leaf n = Some lf \<and>
         (length (edges n) = 0 \<longrightarrow> FirstNonIncludedPrefix t s = Inr (Key lf, True)) \<and>
         (length (edges n) = 1 \<and> label (edges n ! 0) = CHR ''0'' \<longrightarrow>
            FirstNonIncludedPrefix t s = Inr (Key lf @ ''1'', True)) \<and>
         (length (edges n) = 1 \<and> label (edges n ! 0) = CHR ''1'' \<longrightarrow>
            FirstNonIncludedPrefix t s = Inr (Key lf @ ''0'', True)) \<and>
         (length (edges n) = 2 \<longrightarrow> FirstNonIncludedPrefix t s = Inr ([], False)))) \<and>
   (\<exists>t1 t2. run New [OpInsert ''00'' v1, OpInsert ''000'' v2] = Inr t1 \<and>
      FirstNonIncludedPrefix t1 ''00'' = Inr (''001'', True) \<and>
      run t1 [OpInsert ''001'' v3] = Inr t2 \<and>
      FirstNonIncludedPrefix t2 ''00'' = Inr ([], False))"
proof (intro conjI allI impI)
  fix n assume "longestPrefix_scan None (root t) s = Some n"
  from FirstNonIncludedPrefix_general [OF this]
  show "\<exists>lf. leaf n = Some lf \<and>
         (length (edges n) = 0 \<longrightarrow> FirstNonIncludedPrefix t s = Inr (Key lf, True)) \<and>
         (length (edges n) = 1 \<and> label (edges n ! 0) = CHR ''0'' \<longrightarrow>
            FirstNonIncludedPrefix t s = Inr (Key lf @ ''1'', True)) \<and>
         (length (edges n) = 1 \<and> label (edges n ! 0) = CHR ''1'' \<longrightarrow>
            FirstNonIncludedPrefix t s = Inr (Key lf @ ''0'', True)) \<and>
         (length (edges n) = 2 \<longrightarrow> FirstNonIncludedPrefix t s = Inr ([], False))"
    by auto
next
  show "\<exists>t1 t2. run New [OpInsert ''00'' v1, OpInsert ''000'' v2] = Inr t1 \<and>
      FirstNonIncludedPrefix t1 ''00'' = Inr (''001'', True) \<and>
      run t1 [OpInsert ''001'' v3] = Inr t2 \<and>
      FirstNonIncludedPrefix t2 ''00'' = Inr ([], False)"
    by (simp add: eval_simps)
qed

theorem FirstNonIncludedPrefix_binary_witness:
  "longestPrefix_scan None (root tree_00_000) ''00'' =
     Some (Node (Some (LeafNode ''00'' 1)) ''00''
             [Edge CHR ''0'' (Node (Some (LeafNode ''000'' 2)) ''0'' [])]) \<and>
   FirstNonIncludedPrefix tree_00_000 ''00'' = Inr (''001'', True)"
proof -
  let ?n = "Node (Some (LeafNode ''00'' (1::nat))) ''00''
             [Edge CHR ''0'' (Node (Some (LeafNode ''000'' 2)) ''0'' [])]"
  have h: "longestPrefix_scan None (root tree_00_000) ''00'' = Some ?n"
    by (simp add: eval_simps tree_00_000_def)
  from FirstNonIncludedPrefix_binary [of tree_00_000 "''00''" 1 2 3] h
  have "\<exists>lf. leaf ?n = Some lf \<and>
         (length (edges ?n) = 1 \<and> label (edges ?n ! 0) = CHR ''0'' \<longrightarrow>
            FirstNonIncludedPrefix tree_00_000 ''00'' = Inr (Key lf @ ''1'', True))"
    by blast
  then have "FirstNonIncludedPrefix tree_00_000 ''00'' = Inr (''001'', True)" by simp
  with h show ?thesis by simp
qed

text \<open>
  C7 as stated fails: on the keys \<open>a\<close> and \<open>ab\<close>, which are not over a binary alphabet,
  the query \<open>a\<close> is not rejected; it returns \<open>("a1", true)\<close>.
\<close>

theorem FirstNonIncludedPrefix_nonbinary_counterexample:
  "run New [OpInsert ''a'' 1, OpInsert ''ab'' 2] = Inr tree_a_ab \<and>
   FirstNonIncludedPrefix tree_a_ab ''a'' = Inr (''a1'', True)"
  by (simp add: eval_simps tree_a_ab_def)

text \<open>
  C7, as the code has it. \<open>FirstNonIncludedPrefix\<close> does not check the alphabet. It returns
  the empty string and false only when no stored key is a prefix of the query or when the
  matched node has two or more children. When the matched node has no child it returns the
  node's key and true; when it has exactly one child it returns true and the node's key
  followed by \<open>0\<close> if the child's label is \<open>1\<close>, and by \<open>1\<close> for every other label.
\<close>

theorem FirstNonIncludedPrefix_no_alphabet_check:
  "(longestPrefix_scan None (root t) s = None \<longrightarrow>
      FirstNonIncludedPrefix t s = Inr ([], False)) \<and>
   (\<forall>n. longestPrefix_scan None (root t) s = Some n \<longrightarrow>
      (\<exists>lf. leaf n = Some lf \<and>
         (edges n = [] \<longrightarrow> FirstNonIncludedPrefix t s = Inr (Key lf, True)) \<and>
         (length (edges n) = 1 \<and> label (edges n ! 0) = CHR ''1'' \<longrightarrow>
            FirstNonIncludedPrefix t s = Inr (Key lf @ ''0'', True)) \<and>
         (length (edges n) = 1 \<and> label (edges n ! 0) \<noteq> CHR ''1'' \<longrightarrow>
            FirstNonIncludedPrefix t s = Inr (Key lf @ ''1'', True)) \<and>
         (length (edges n) \<ge> 2 \<longrightarrow> FirstNonIncludedPrefix t s = Inr ([], False))))"
proof (intro conjI allI impI)
  assume "longestPrefix_scan None (root t) s = None"
  then show "FirstNonIncludedPrefix t s = Inr ([], False)"
    by (simp add: FirstNonIncludedPrefix_def Tree_longestPrefix_def)
next
  fix n assume "longestPrefix_scan None (root t) s = Some n"
  from FirstNonIncludedPrefix_general [OF this]
  show "\<exists>lf. leaf n = Some lf \<and>
         (edges n = [] \<longrightarrow> FirstNonIncludedPrefix t s = Inr (Key lf, True)) \<and>
         (length (edges n) = 1 \<and> label (edges n ! 0) = CHR ''1'' \<longrightarrow>
            FirstNonIncludedPrefix t s = Inr (Key lf @ ''0'', True)) \<and>
         (length (edges n) = 1 \<and> label (edges n ! 0) \<noteq> CHR ''1'' \<longrightarrow>
            FirstNonIncludedPrefix t s = Inr (Key lf @ ''1'', True)) \<and>
         (length (edges n) \<ge> 2 \<longrightarrow> FirstNonIncludedPrefix t s = Inr ([], False))"
    by auto
qed

theorem FirstNonIncludedPrefix_no_alphabet_check_witness:
  "longestPrefix_scan None (root tree_a_ab) ''a'' =
     Some (Node (Some (LeafNode ''a'' 1)) ''a''
             [Edge CHR ''b'' (Node (Some (LeafNode ''ab'' 2)) ''b'' [])]) \<and>
   longestPrefix_scan None (root tree_a_ab) ''b'' = None \<and>
   FirstNonIncludedPrefix tree_a_ab ''a'' = Inr (''a1'', True) \<and>
   FirstNonIncludedPrefix tree_a_ab ''b'' = Inr ([], False)"
proof -
  let ?n = "Node (Some (LeafNode ''a'' (1::nat))) ''a''
             [Edge CHR ''b'' (Node (Some (LeafNode ''ab'' 2)) ''b'' [])]"
  have h: "longestPrefix_scan None (root tree_a_ab) ''a'' = Some ?n"
    by (simp add: eval_simps tree_a_ab_def)
  have h2: "longestPrefix_scan None (root tree_a_ab) ''b'' = None"
    by (simp add: eval_simps tree_a_ab_def)
  from FirstNonIncludedPrefix_no_alphabet_check [of tree_a_ab "''a''"] h
  have "\<exists>lf. leaf ?n = Some lf \<and>
         (length (edges ?n) = 1 \<and> label (edges ?n ! 0) \<noteq> CHR ''1'' \<longrightarrow>
            FirstNonIncludedPrefix tree_a_ab ''a'' = Inr (Key lf @ ''1'', True))"
    by blast
  then have a: "FirstNonIncludedPrefix tree_a_ab ''a'' = Inr (''a1'', True)" by simp
  from FirstNonIncludedPrefix_no_alphabet_check [of tree_a_ab "''b''"] h2
  have b: "FirstNonIncludedPrefix tree_a_ab ''b'' = Inr ([], False)" by blast
  from h h2 a b show ?thesis by simp
qed

section \<open>Delete and DeletePrefix on keys and prefixes that are not there\<close>

lemmas eval_simps2 = eval_simps Get_def get_loop.simps Delete_def delete_loop.simps
  delete_block_def mergeChild_def delEdge_def plug_def top_def DeletePrefix_def
  deletePrefix.simps prefix_mismatch.simps

lemma plug_top: "par_ok par n \<Longrightarrow> plug par n = top par n"
  by (auto simp: par_ok_def plug_def top_def writeBack_same split: option.splits)

lemma get_loop_result: "get_loop n search = (None, False) \<or> (\<exists>v. get_loop n search = (Some v, True))"
proof (induction n search rule: get_loop.induct)
  case (1 n search)
  show ?case
    using "1.IH" by (subst (1 2) get_loop.simps) (auto split: option.splits)
qed

lemma delete_loop_not_found:
  "par_ok par n \<Longrightarrow> get_loop n search = (None, False) \<Longrightarrow>
   delete_loop par n sz search = Inr (top par n, sz, None, False)"
proof (induction par n sz search rule: delete_loop.induct)
  case (1 par n sz search)
  show ?case
  proof (cases "search = []")
    case True
    with "1.prems"(2) have "leaf n = None"
      by (subst (asm) get_loop.simps) (simp split: option.splits)
    with True show ?thesis
      by (subst delete_loop.simps) (simp add: isLeaf_def)
  next
    case False
    show ?thesis
    proof (cases "getEdge n (hd search)")
      case None
      with False show ?thesis by (subst delete_loop.simps) (simp add: Let_def)
    next
      case (Some c)
      show ?thesis
      proof (cases "HasPrefix search (prefix c)")
        case nh: False
        with False Some show ?thesis by (subst delete_loop.simps) (simp add: Let_def)
      next
        case True
        let ?par' = "Some (par = None, n, hd search)"
        have ok: "par_ok ?par' c" using Some by (simp add: par_ok_def)
        have g: "get_loop c (drop (length (prefix c)) search) = (None, False)"
          using "1.prems"(2) False Some True by (subst (asm) get_loop.simps) simp
        have "delete_loop ?par' c sz (drop (length (prefix c)) search) =
              Inr (top ?par' c, sz, None, False)"
          by (rule "1.IH" [OF False refl Some True ok g])
        then have "delete_loop par n sz search = Inr (plug par n, sz, None, False)"
          using False Some True by (subst delete_loop.simps) (simp add: Let_def top_def)
        with plug_top [OF "1.prems"(1)] show ?thesis by simp
      qed
    qed
  qed
qed

text \<open>
  C8. When the key \<open>k\<close> is not stored in the tree (\<open>Get\<close> does not find it: the descent
  fails to exhaust the key, or exhausts it on a node without a stored entry), \<open>Delete\<close>
  returns \<open>(nil, false)\<close> and the tree it leaves is the tree it was given, nodes, edges and
  counter.
\<close>

theorem Delete_absent_key:
  assumes "Get t k = (None, False)"
  shows "Delete t k = Inr (t, None, False)"
  using delete_loop_not_found [of None "root t" k "size_tree t"] assms
  by (simp add: Delete_def Get_def par_ok_def top_def)

theorem Delete_absent_key_witness:
  "Get tree_a_ab ''abc'' = (None, False) \<and> Delete tree_a_ab ''abc'' = Inr (tree_a_ab, None, False)"
proof -
  have h: "Get tree_a_ab ''abc'' = (None, False)"
    by (simp add: eval_simps2 tree_a_ab_def)
  from h Delete_absent_key [OF h] show ?thesis by simp
qed

lemma deletePrefix_descent_fails:
  "par_ok par n \<Longrightarrow> prefix_mismatch n pfx \<Longrightarrow> deletePrefix par n sz pfx = Inr (top par n, sz, 0)"
proof (induction par n sz pfx rule: deletePrefix.induct)
  case (1 par n sz pfx)
  from "1.prems"(2) have ne: "pfx \<noteq> []"
    by (subst (asm) prefix_mismatch.simps) (simp split: if_splits)
  show ?case
  proof (cases "getEdge n (hd pfx)")
    case None
    with ne show ?thesis by (subst deletePrefix.simps) (simp add: Let_def)
  next
    case (Some child)
    show ?thesis
    proof (cases "\<not> HasPrefix (prefix child) pfx \<and> \<not> HasPrefix pfx (prefix child)")
      case True
      with ne Some show ?thesis by (subst deletePrefix.simps) (simp add: Let_def)
    next
      case False
      let ?pfx' = "if length (prefix child) > length pfx then drop (length pfx) pfx
                   else drop (length (prefix child)) pfx"
      let ?par' = "Some (par = None, n, hd pfx)"
      have ok: "par_ok ?par' child" using Some by (simp add: par_ok_def)
      have mm: "prefix_mismatch child ?pfx'"
        using "1.prems"(2) ne Some False by (subst (asm) prefix_mismatch.simps) auto
      have "deletePrefix ?par' child sz ?pfx' = Inr (top ?par' child, sz, 0)"
        by (rule "1.IH" [OF ne refl Some False refl ok mm])
      then have "deletePrefix par n sz pfx = Inr (plug par n, sz, 0)"
        using ne Some False by (subst deletePrefix.simps) (auto simp add: Let_def top_def)
      with plug_top [OF "1.prems"(1)] show ?thesis by simp
    qed
  qed
qed

section \<open>Insert and Get\<close>

lemma longestPrefix_loop_spec:
  "i \<le> mx \<Longrightarrow> mx \<le> length k1 \<Longrightarrow> mx \<le> length k2 \<Longrightarrow> take i k1 = take i k2 \<Longrightarrow>
   i \<le> longestPrefix_loop k1 k2 mx i \<and> longestPrefix_loop k1 k2 mx i \<le> mx \<and>
   take (longestPrefix_loop k1 k2 mx i) k1 = take (longestPrefix_loop k1 k2 mx i) k2 \<and>
   (longestPrefix_loop k1 k2 mx i < mx \<longrightarrow>
      k1 ! longestPrefix_loop k1 k2 mx i \<noteq> k2 ! longestPrefix_loop k1 k2 mx i)"
proof (induction k1 k2 mx i rule: longestPrefix_loop.induct)
  case (1 k1 k2 mx i)
  show ?case
  proof (cases "i < mx")
    case False
    then have "longestPrefix_loop k1 k2 mx i = i" by (subst longestPrefix_loop.simps) simp
    with False "1.prems" show ?thesis by simp
  next
    case True
    show ?thesis
    proof (cases "k1 ! i \<noteq> k2 ! i")
      case ne: True
      with True have "longestPrefix_loop k1 k2 mx i = i"
        by (subst longestPrefix_loop.simps) simp
      with True ne "1.prems" show ?thesis by simp
    next
      case eq: False
      have e: "longestPrefix_loop k1 k2 mx i = longestPrefix_loop k1 k2 mx (i + 1)"
        using True eq by (subst longestPrefix_loop.simps) simp
      have "take (i + 1) k1 = take (i + 1) k2"
        using True eq "1.prems" by (simp add: take_Suc_conv_app_nth)
      moreover have "i + 1 \<le> mx" using True by simp
      ultimately have "i + 1 \<le> longestPrefix_loop k1 k2 mx (i + 1) \<and>
          longestPrefix_loop k1 k2 mx (i + 1) \<le> mx \<and>
          take (longestPrefix_loop k1 k2 mx (i + 1)) k1 = take (longestPrefix_loop k1 k2 mx (i + 1)) k2 \<and>
          (longestPrefix_loop k1 k2 mx (i + 1) < mx \<longrightarrow>
             k1 ! longestPrefix_loop k1 k2 mx (i + 1) \<noteq> k2 ! longestPrefix_loop k1 k2 mx (i + 1))"
        using "1.IH" [OF True] eq "1.prems"(2,3) by blast
      then show ?thesis unfolding e by simp
    qed
  qed
qed

lemma longestPrefix_spec:
  "longestPrefix a b \<le> length a \<and> longestPrefix a b \<le> length b \<and>
   take (longestPrefix a b) a = take (longestPrefix a b) b \<and>
   (longestPrefix a b < length a \<and> longestPrefix a b < length b \<longrightarrow>
      a ! longestPrefix a b \<noteq> b ! longestPrefix a b)"
proof -
  let ?mx = "min (length a) (length b)"
  have m: "(if length b < length a then length b else length a) = ?mx" by simp
  have "0 \<le> longestPrefix_loop a b ?mx 0 \<and> longestPrefix_loop a b ?mx 0 \<le> ?mx \<and>
   take (longestPrefix_loop a b ?mx 0) a = take (longestPrefix_loop a b ?mx 0) b \<and>
   (longestPrefix_loop a b ?mx 0 < ?mx \<longrightarrow>
      a ! longestPrefix_loop a b ?mx 0 \<noteq> b ! longestPrefix_loop a b ?mx 0)"
    by (rule longestPrefix_loop_spec) simp_all
  moreover have "longestPrefix a b = longestPrefix_loop a b ?mx 0"
    unfolding longestPrefix_def Let_def m ..
  ultimately show ?thesis by simp
qed

lemma longestPrefix_full: "longestPrefix s p = length p \<longleftrightarrow> HasPrefix s p"
proof
  assume h: "longestPrefix s p = length p"
  with longestPrefix_spec [of s p] show "HasPrefix s p" by (simp add: HasPrefix_def)
next
  assume h: "HasPrefix s p"
  let ?cp = "longestPrefix s p"
  note sp = longestPrefix_spec [of s p]
  show "?cp = length p"
  proof (rule ccontr)
    assume "?cp \<noteq> length p"
    with sp have lt: "?cp < length p" by simp
    with h have lt2: "?cp < length s" by (simp add: HasPrefix_def)
    from h have "s ! ?cp = p ! ?cp" using lt
      by (metis HasPrefix_def nth_take)
    with sp lt lt2 show False by simp
  qed
qed

lemma insert_loop_induct [case_names step]:
  fixes P :: "'v node \<Rightarrow> int \<Rightarrow> string \<Rightarrow> string \<Rightarrow> 'v \<Rightarrow> bool"
  assumes "\<And>n sz s search v.
      (\<And>c. search \<noteq> [] \<Longrightarrow> getEdge n (hd search) = Some c \<Longrightarrow> HasPrefix search (prefix c) \<Longrightarrow>
         P c sz s (drop (length (prefix c)) search) v) \<Longrightarrow> P n sz s search v"
  shows "P n sz s search v"
proof (induction n sz s search v rule: insert_loop.induct)
  case (1 n sz s search v)
  show ?case
  proof (rule assms)
    fix c assume a: "search \<noteq> []" "getEdge n (hd search) = Some c" "HasPrefix search (prefix c)"
    then have "longestPrefix search (prefix c) = length (prefix c)"
      by (simp add: longestPrefix_full)
    from "1.IH" [OF a(1) a(2) refl this] this
    show "P c sz s (drop (length (prefix c)) search) v" by simp
  qed
qed

lemma insert_loop_exhausted:
  "insert_loop n sz s [] v =
     (case leaf n of
        Some lf \<Rightarrow> Inr (Node (Some (LeafNode (Key lf) v)) (prefix n) (edges n), sz, Some (Val lf), True)
      | None \<Rightarrow> Inr (Node (Some (LeafNode s v)) (prefix n) (edges n), sz + 1, None, False))"
  by (subst insert_loop.simps) simp

lemma insert_loop_new_edge:
  "search \<noteq> [] \<Longrightarrow> getEdge n (hd search) = None \<Longrightarrow>
   insert_loop n sz s search v =
     Inr (addEdge n (Edge (hd search) (Node (Some (LeafNode s v)) search [])), sz + 1, None, False)"
  by (subst insert_loop.simps) simp

lemma insert_loop_descend:
  "search \<noteq> [] \<Longrightarrow> getEdge n (hd search) = Some c \<Longrightarrow> HasPrefix search (prefix c) \<Longrightarrow>
   insert_loop n sz s search v =
     (case insert_loop c sz s (drop (length (prefix c)) search) v of
        Inl e \<Rightarrow> Inl e
      | Inr (c', r) \<Rightarrow> Inr (writeBack n (hd search) c', r))"
proof -
  assume a: "search \<noteq> []" "getEdge n (hd search) = Some c" "HasPrefix search (prefix c)"
  then have "longestPrefix search (prefix c) = length (prefix c)"
    by (simp add: longestPrefix_full)
  with a show ?thesis by (subst insert_loop.simps) (simp add: Let_def)
qed

lemma insert_loop_split:
  assumes "search \<noteq> []" "getEdge n (hd search) = Some c" "\<not> HasPrefix search (prefix c)"
    and "edges n = as @ Edge (hd search) c # bs" "edgeIndex (edges n) (hd search) = length as"
  shows "insert_loop n sz s search v =
     Inr (Node (leaf n) (prefix n) (as @ Edge (hd search) (split_node c s search v) # bs),
          sz + 1, None, False)"
proof -
  let ?cp = "longestPrefix search (prefix c)"
  note sp = longestPrefix_spec [of search "prefix c"]
  have ne: "?cp \<noteq> length (prefix c)" using assms(3) by (simp add: longestPrefix_full)
  with sp have lt: "?cp < length (prefix c)" by simp
  have hd: "drop ?cp search \<noteq> [] \<Longrightarrow> hd (drop ?cp search) = search ! ?cp"
    by (simp add: hd_drop_conv_nth)
  show ?thesis
    using assms(1,2) ne lt hd
    by (subst insert_loop.simps)
       (simp add: Let_def addEdge_def Sort_edges_def split_node_def
                  updateEdge_split [OF assms(4,5)])
qed

lemma sorted_edges_iff: "sorted_edges es \<longleftrightarrow> (\<forall>e \<in> set es. sorted_node (node e))"
proof (induction es)
  case Nil
  show ?case by simp
next
  case (Cons e es)
  then show ?case by (cases e) simp
qed

lemma sorted_node_Node:
  "sorted_node (Node lf p es) \<longleftrightarrow>
     sorted_wrt (<) (map label es) \<and> (\<forall>e \<in> set es. sorted_node (node e))"
  by (simp add: sorted_edges_iff)

lemma sorted_node_edges: "sorted_node n \<Longrightarrow> sorted_wrt (<) (map label (edges n))"
  by (cases n) simp

lemma sorted_node_child: "sorted_node n \<Longrightarrow> edges n = as @ Edge l c # bs \<Longrightarrow> sorted_node c"
  by (cases n) (simp add: sorted_edges_iff)

lemma sorted_node_children: "sorted_node n \<Longrightarrow> e \<in> set (edges n) \<Longrightarrow> sorted_node (node e)"
  by (cases n) (simp add: sorted_edges_iff)

lemma getEdge_cong: "edges n = edges m \<Longrightarrow> getEdge n l = getEdge m l"
  by (simp add: getEdge_def Let_def)

lemma getEdge_Node: "getEdge (Node lf p es) l = getEdge (Node lf' p' es) l"
  by (simp add: getEdge_def Let_def)

lemma strict_sorted_labels_distinct:
  "sorted_wrt (<) (map label es) \<Longrightarrow> distinct (map label es)"
  using strict_sorted_iff by blast

lemma lookup_replace:
  assumes "sorted_wrt (<) (map label (as @ Edge l c # bs))"
  shows "lookup (as @ Edge l c' # bs) l' =
           (if l' = l then Some c' else lookup (as @ Edge l c # bs) l')"
proof -
  have "distinct (map label (as @ Edge l c # bs))"
    using assms by (rule strict_sorted_labels_distinct)
  then have "l \<notin> set (map label as)" by auto
  then have "lookup as l = None" by (simp add: lookup_None_iff)
  then show ?thesis by (simp add: lookup_append split: option.splits)
qed

lemma lookup_remove:
  assumes "sorted_wrt (<) (map label (as @ Edge l c # bs))"
  shows "lookup (as @ bs) l' = (if l' = l then None else lookup (as @ Edge l c # bs) l')"
proof -
  have "distinct (map label (as @ Edge l c # bs))"
    using assms by (rule strict_sorted_labels_distinct)
  then have "l \<notin> set (map label as)" "l \<notin> set (map label bs)" by auto
  then have "lookup as l = None" "lookup bs l = None" by (simp_all add: lookup_None_iff)
  then show ?thesis by (simp add: lookup_append split: option.splits)
qed

lemma sorted_replace:
  "sorted_wrt (<) (map label (as @ Edge l c # bs)) \<Longrightarrow>
   sorted_wrt (<) (map label (as @ Edge l c' # bs))"
  by simp

lemma sorted_remove:
  "sorted_wrt (<) (map label (as @ Edge l c # bs)) \<Longrightarrow> sorted_wrt (<) (map label (as @ bs))"
  by (auto simp: sorted_wrt_append)

lemma insort_key_split: "\<exists>as bs. es = as @ bs \<and> insort_key f e es = as @ e # bs"
proof (induction es)
  case Nil
  show ?case by simp
next
  case (Cons x es)
  then obtain as bs where ab: "es = as @ bs" "insort_key f e es = as @ e # bs" by blast
  show ?case
  proof (cases "f e \<le> f x")
    case True
    then have "x # es = [] @ (x # es) \<and> insort_key f e (x # es) = [] @ e # (x # es)" by simp
    then show ?thesis by blast
  next
    case False
    then have "x # es = (x # as) @ bs \<and> insort_key f e (x # es) = (x # as) @ e # bs"
      using ab by simp
    then show ?thesis by blast
  qed
qed

lemma sort_key_snoc:
  "sorted (map f es) \<Longrightarrow> f e \<notin> set (map f es) \<Longrightarrow> sort_key f (es @ [e]) = insort_key f e es"
proof (induction es)
  case Nil
  show ?case by simp
next
  case (Cons x es)
  then have ih: "sort_key f (es @ [e]) = insort_key f e es" by simp
  have ne: "f x \<noteq> f e" using Cons.prems(2) by auto
  have "sort_key f ((x # es) @ [e]) = insort_key f x (sort_key f (es @ [e]))" by simp
  also have "\<dots> = insort_key f x (insort_key f e es)" by (simp only: ih)
  also have "\<dots> = insort_key f e (insort_key f x es)" using ne [symmetric] by (rule insort_key_left_comm)
  also have "insort_key f x es = x # es" using Cons.prems(1) by (simp add: insort_is_Cons)
  finally show ?case .
qed

lemma Sort_edges_snoc:
  assumes "sorted_wrt (<) (map label es)" "label e \<notin> set (map label es)"
  shows "\<exists>as bs. es = as @ bs \<and> Sort_edges (es @ [e]) = as @ e # bs \<and>
                sorted_wrt (<) (map label (as @ e # bs))"
proof -
  have st: "sorted (map label es)" using assms(1) by (rule strict_sorted_imp_sorted)
  have eq: "Sort_edges (es @ [e]) = insort_key label e es"
    unfolding Sort_edges_def using st assms(2) by (rule sort_key_snoc)
  obtain as bs where ab: "es = as @ bs" "insort_key label e es = as @ e # bs"
    using insort_key_split [of es label e] by (elim exE conjE)
  have "sorted (map label (insort_key label e es))" using st by (simp add: sorted_insort_key)
  then have s1: "sorted (map label (as @ e # bs))" by (simp only: ab(2))
  have "distinct (map label (as @ bs))"
    using strict_sorted_labels_distinct [OF assms(1)] ab(1) by simp
  moreover have "label e \<notin> set (map label (as @ bs))" using assms(2) ab(1) by simp
  ultimately have "distinct (map label (as @ e # bs))" by simp
  with s1 have "sorted_wrt (<) (map label (as @ e # bs))"
    by (simp only: strict_sorted_iff)
  moreover have "Sort_edges (es @ [e]) = as @ e # bs" using eq ab(2) by simp
  ultimately show ?thesis using ab(1) by blast
qed

lemma lookup_insert_mid:
  assumes "label e \<notin> set (map label (as @ bs))"
  shows "lookup (as @ e # bs) l' = (if l' = label e then Some (node e) else lookup (as @ bs) l')"
proof -
  have "lookup as (label e) = None" using assms by (simp add: lookup_None_iff)
  then show ?thesis by (simp add: lookup_append split: option.splits)
qed

lemma get_loop_Nil:
  "get_loop n [] = (case leaf n of Some lf \<Rightarrow> (Some (Val lf), True) | None \<Rightarrow> (None, False))"
  by (subst get_loop.simps) simp

lemma get_loop_step:
  "k \<noteq> [] \<Longrightarrow>
   get_loop n k = (case getEdge n (hd k) of None \<Rightarrow> (None, False) | Some c \<Rightarrow> get_via c k)"
  by (subst get_loop.simps) (simp add: get_via_def split: option.splits)

lemma get_loop_cong: "leaf n = leaf m \<Longrightarrow> edges n = edges m \<Longrightarrow> get_loop n k = get_loop m k"
proof (cases "k = []")
  case True
  assume "leaf n = leaf m"
  with True show ?thesis by (simp add: get_loop_Nil)
next
  case False
  assume "edges n = edges m"
  then have "getEdge n (hd k) = getEdge m (hd k)" by (rule getEdge_cong)
  with False show ?thesis by (simp add: get_loop_step)
qed

lemma HasPrefix_append [simp]: "HasPrefix (pre @ k) (pre @ p) = HasPrefix k p"
  by (auto simp: HasPrefix_def)

lemma HasPrefix_append_self [simp]: "HasPrefix (pre @ k) pre"
  by (simp add: HasPrefix_def)

lemma HasPrefix_self [simp]: "HasPrefix k k"
  by (simp add: HasPrefix_def)

lemma HasPrefix_Nil [simp]: "HasPrefix k []"
  by (simp add: HasPrefix_def)

lemma HasPrefix_iff: "HasPrefix k p \<longleftrightarrow> (\<exists>r. k = p @ r)"
  unfolding HasPrefix_def by (metis append_eq_conv_conj length_append le_add1)

lemma get_via_strip:
  "get_via (Node lf (pre @ p') es) (pre @ k') = get_via (Node lf p' es) k'"
  by (simp add: get_via_def get_loop_cong [of "Node lf (pre @ p') es" "Node lf p' es"])

lemma get_via_new_leaf:
  "get_via (Node (Some (LeafNode s v)) search []) k =
     (if k = search then (Some v, True) else (None, False))"
proof (cases "HasPrefix k search")
  case False
  then have "k \<noteq> search" by auto
  with False show ?thesis by (simp add: get_via_def)
next
  case True
  then obtain r where r: "k = search @ r" using HasPrefix_iff by blast
  show ?thesis
  proof (cases "r = []")
    case True
    with r show ?thesis by (simp add: get_via_def get_loop_Nil)
  next
    case False
    then have "get_loop (Node (Some (LeafNode s v)) search []) r = (None, False)"
      by (simp add: get_loop_step getEdge_def edgeIndex_def sort_Search_def
                    sort_Search_loop.simps)
    with r False show ?thesis by (simp add: get_via_def)
  qed
qed

lemma split_node_form:
  assumes "\<not> HasPrefix search (prefix c)"
  shows "\<exists>pre ps ss. prefix c = pre @ ps \<and> search = pre @ ss \<and> ps \<noteq> [] \<and>
           (ss \<noteq> [] \<longrightarrow> hd ss \<noteq> hd ps) \<and>
           split_node c s search v =
             (if ss = [] then
                Node (Some (LeafNode s v)) pre [Edge (hd ps) (Node (leaf c) ps (edges c))]
              else Node None pre
                (if hd ps \<le> hd ss
                 then [Edge (hd ps) (Node (leaf c) ps (edges c)),
                       Edge (hd ss) (Node (Some (LeafNode s v)) ss [])]
                 else [Edge (hd ss) (Node (Some (LeafNode s v)) ss []),
                       Edge (hd ps) (Node (leaf c) ps (edges c))]))"
proof -
  let ?cp = "longestPrefix search (prefix c)"
  let ?pre = "take ?cp search" and ?ps = "drop ?cp (prefix c)" and ?ss = "drop ?cp search"
  note sp = longestPrefix_spec [of search "prefix c"]
  have ne: "?cp \<noteq> length (prefix c)" using assms by (simp add: longestPrefix_full)
  with sp have lt: "?cp < length (prefix c)" by simp
  have p: "prefix c = ?pre @ ?ps" using sp by (metis append_take_drop_id)
  have q: "search = ?pre @ ?ss" by simp
  have psne: "?ps \<noteq> []" using lt by simp
  have hps: "hd ?ps = prefix c ! ?cp" using lt by (simp add: hd_drop_conv_nth)
  have hss: "?ss \<noteq> [] \<Longrightarrow> hd ?ss = search ! ?cp" by (simp add: hd_drop_conv_nth)
  have d: "?ss \<noteq> [] \<longrightarrow> hd ?ss \<noteq> hd ?ps"
  proof
    assume a: "?ss \<noteq> []"
    then have "?cp < length search" by simp
    with sp lt have "search ! ?cp \<noteq> prefix c ! ?cp" by simp
    with hps hss [OF a] show "hd ?ss \<noteq> hd ?ps" by simp
  qed
  have "split_node c s search v =
             (if ?ss = [] then
                Node (Some (LeafNode s v)) ?pre [Edge (hd ?ps) (Node (leaf c) ?ps (edges c))]
              else Node None ?pre
                (if hd ?ps \<le> hd ?ss
                 then [Edge (hd ?ps) (Node (leaf c) ?ps (edges c)),
                       Edge (hd ?ss) (Node (Some (LeafNode s v)) ?ss [])]
                 else [Edge (hd ?ss) (Node (Some (LeafNode s v)) ?ss []),
                       Edge (hd ?ps) (Node (leaf c) ?ps (edges c))]))"
    using hps hss by (simp add: split_node_def Let_def)
  with p q psne d show ?thesis by blast
qed

lemma get_via_hd_differs:
  "k \<noteq> [] \<Longrightarrow> ps \<noteq> [] \<Longrightarrow> hd k \<noteq> hd ps \<Longrightarrow> get_via (Node lf ps es) k = (None, False)"
  by (cases k; cases ps) (auto simp: get_via_def HasPrefix_def)

lemma getEdge_single:
  "getEdge (Node lf p [Edge a x]) l = (if l = a then Some x else None)"
proof -
  have "getEdge (Node lf p [Edge a x]) l = lookup [Edge a x] l"
    using getEdge_lookup [of "Node lf p [Edge a x]" l] by simp
  then show ?thesis by auto
qed

lemma getEdge_pair:
  assumes "a \<noteq> b"
  shows "getEdge (Node lf p (if a \<le> b then [Edge a x, Edge b y] else [Edge b y, Edge a x])) l =
           (if l = a then Some x else if l = b then Some y else None)"
proof -
  let ?es = "if a \<le> b then [Edge a x, Edge b y] else [Edge b y, Edge a x]"
  have "sorted_wrt (<) (map label ?es)" using assms by auto
  then have "getEdge (Node lf p ?es) l = lookup ?es l"
    using getEdge_lookup [of "Node lf p ?es" l] by simp
  then show ?thesis using assms by auto
qed

lemma get_via_split_node:
  assumes "\<not> HasPrefix search (prefix c)"
  shows "get_via (split_node c s search v) k =
           (if k = search then (Some v, True) else get_via c k)"
proof -
  obtain pre ps ss where f: "prefix c = pre @ ps" "search = pre @ ss" "ps \<noteq> []"
      "ss \<noteq> [] \<longrightarrow> hd ss \<noteq> hd ps"
      "split_node c s search v =
             (if ss = [] then
                Node (Some (LeafNode s v)) pre [Edge (hd ps) (Node (leaf c) ps (edges c))]
              else Node None pre
                (if hd ps \<le> hd ss
                 then [Edge (hd ps) (Node (leaf c) ps (edges c)),
                       Edge (hd ss) (Node (Some (LeafNode s v)) ss [])]
                 else [Edge (hd ss) (Node (Some (LeafNode s v)) ss []),
                       Edge (hd ps) (Node (leaf c) ps (edges c))]))"
    using split_node_form [OF assms, of s v] by (elim exE conjE)
  let ?cT = "Node (leaf c) ps (edges c)"
  let ?new = "Node (Some (LeafNode s v)) ss []"
  let ?sp = "split_node c s search v"
  have psp: "prefix ?sp = pre" using f(5) by (simp split: if_splits)
  have cform: "c = Node (leaf c) (pre @ ps) (edges c)" using f(1) by (cases c) simp
  show ?thesis
  proof (cases "HasPrefix k pre")
    case False
    then have "k \<noteq> search" using f(2) by (auto simp: HasPrefix_iff)
    moreover have "\<not> HasPrefix k (prefix c)" using False f(1) by (auto simp: HasPrefix_iff)
    ultimately show ?thesis using False psp by (simp add: get_via_def)
  next
    case True
    then obtain k' where k: "k = pre @ k'" using HasPrefix_iff by blast
    have l: "get_via ?sp k = get_loop ?sp k'" using k psp by (simp add: get_via_def)
    have r: "get_via c k = get_via ?cT k'"
      using get_via_strip [of "leaf c" pre ps "edges c" k'] cform k by simp
    have e: "k = search \<longleftrightarrow> k' = ss" using k f(2) by simp
    have goal: "get_loop ?sp k' = (if k' = ss then (Some v, True) else get_via ?cT k')"
    proof (cases "k' = []")
      case True
      have "get_via ?cT [] = (None, False)" using f(3) by (simp add: get_via_def HasPrefix_def)
      with True show ?thesis using f(5) by (auto simp: get_loop_Nil)
    next
      case False
      show ?thesis
      proof (cases "ss = []")
        case True
        then have sp: "?sp = Node (Some (LeafNode s v)) pre [Edge (hd ps) ?cT]" using f(5) by simp
        show ?thesis
          using False True get_via_hd_differs [OF False f(3), of "leaf c" "edges c"]
          by (simp add: sp get_loop_step getEdge_single)
      next
        case ssne: False
        then have ne: "hd ps \<noteq> hd ss" using f(4) by auto
        have sp: "?sp = Node None pre
                (if hd ps \<le> hd ss then [Edge (hd ps) ?cT, Edge (hd ss) ?new]
                 else [Edge (hd ss) ?new, Edge (hd ps) ?cT])"
          using f(5) ssne by simp
        have ge: "getEdge ?sp (hd k') =
                (if hd k' = hd ps then Some ?cT else if hd k' = hd ss then Some ?new else None)"
          unfolding sp by (rule getEdge_pair [OF ne])
        show ?thesis
        proof (cases "hd k' = hd ps")
          case True
          then have "k' \<noteq> ss" using ne by auto
          with True False ge show ?thesis by (simp add: get_loop_step)
        next
          case nps: False
          have z: "get_via ?cT k' = (None, False)"
            using get_via_hd_differs [OF False f(3) nps] .
          show ?thesis
          proof (cases "hd k' = hd ss")
            case True
            with nps False ge z show ?thesis by (simp add: get_loop_step get_via_new_leaf)
          next
            case nss: False
            then have "k' \<noteq> ss" by auto
            with nps nss False ge z show ?thesis by (simp add: get_loop_step)
          qed
        qed
      qed
    qed
    with l r e show ?thesis by simp
  qed
qed

lemma insert_loop_elim [consumes 1, case_names exhausted new_edge descend split]:
  assumes "insert_loop n sz s search v = Inr (n', sz', old, upd)"
  obtains
    "search = []"
    "(n', sz', old, upd) =
       (case leaf n of
          Some lf \<Rightarrow> (Node (Some (LeafNode (Key lf) v)) (prefix n) (edges n), sz, Some (Val lf), True)
        | None \<Rightarrow> (Node (Some (LeafNode s v)) (prefix n) (edges n), sz + 1, None, False))"
  | "search \<noteq> []" "getEdge n (hd search) = None"
    "n' = addEdge n (Edge (hd search) (Node (Some (LeafNode s v)) search []))"
    "sz' = sz + 1" "old = None" "\<not> upd"
  | c c' as bs where "search \<noteq> []" "getEdge n (hd search) = Some c"
    "HasPrefix search (prefix c)" "edges n = as @ Edge (hd search) c # bs"
    "insert_loop c sz s (drop (length (prefix c)) search) v = Inr (c', sz', old, upd)"
    "n' = Node (leaf n) (prefix n) (as @ Edge (hd search) c' # bs)"
  | c as bs where "search \<noteq> []" "getEdge n (hd search) = Some c"
    "\<not> HasPrefix search (prefix c)" "edges n = as @ Edge (hd search) c # bs"
    "n' = Node (leaf n) (prefix n) (as @ Edge (hd search) (split_node c s search v) # bs)"
    "sz' = sz + 1" "old = None" "\<not> upd"
proof (cases "search = []")
  case True
  with assms that(1) show ?thesis
    by (simp add: insert_loop_exhausted split: option.splits)
next
  case ne: False
  show ?thesis
  proof (cases "getEdge n (hd search)")
    case None
    with ne assms that(2) show ?thesis by (simp add: insert_loop_new_edge)
  next
    case (Some c)
    obtain as bs where ab: "edges n = as @ Edge (hd search) c # bs"
        "edgeIndex (edges n) (hd search) = length as"
      using getEdge_split [OF Some] by (elim exE conjE)
    show ?thesis
    proof (cases "HasPrefix search (prefix c)")
      case True
      from assms obtain c' where
        c': "insert_loop c sz s (drop (length (prefix c)) search) v = Inr (c', sz', old, upd)"
        and n': "n' = writeBack n (hd search) c'"
        by (auto simp: insert_loop_descend [OF ne Some True] split: sum.splits)
      from n' have "n' = Node (leaf n) (prefix n) (as @ Edge (hd search) c' # bs)"
        by (simp add: writeBack_split [OF ab])
      with that(3) [OF ne Some True ab(1) c'] show ?thesis .
    next
      case False
      from assms have "n' = Node (leaf n) (prefix n)
                              (as @ Edge (hd search) (split_node c s search v) # bs)"
        "sz' = sz + 1" "old = None" "\<not> upd"
        by (simp_all add: insert_loop_split [OF ne Some False ab])
      with that(4) [OF ne Some False ab(1)] show ?thesis .
    qed
  qed
qed

lemma insert_loop_total: "\<exists>n' sz' old upd. insert_loop n sz s search v = Inr (n', sz', old, upd)"
proof (induction n sz s search v rule: insert_loop_induct)
  case (step n sz s search v)
  show ?case
  proof (cases "search = []")
    case True
    then show ?thesis by (cases "leaf n") (auto simp: insert_loop_exhausted)
  next
    case ne: False
    show ?thesis
    proof (cases "getEdge n (hd search)")
      case None
      with ne show ?thesis by (auto simp: insert_loop_new_edge)
    next
      case (Some c)
      obtain as bs where ab: "edges n = as @ Edge (hd search) c # bs"
          "edgeIndex (edges n) (hd search) = length as"
        using getEdge_split [OF Some] by (elim exE conjE)
      show ?thesis
      proof (cases "HasPrefix search (prefix c)")
        case True
        from step [OF ne Some True] obtain c' sz' old upd where
          "insert_loop c sz s (drop (length (prefix c)) search) v = Inr (c', sz', old, upd)"
          by (elim exE)
        then show ?thesis
          by (simp add: insert_loop_descend [OF ne Some True])
      next
        case False
        show ?thesis by (auto simp: insert_loop_split [OF ne Some False ab])
      qed
    qed
  qed
qed

lemma insert_loop_prefix:
  "insert_loop n sz s search v = Inr (n', sz', old, upd) \<Longrightarrow> prefix n' = prefix n"
  by (erule insert_loop_elim) (auto simp: addEdge_def split: option.splits)

lemma insert_loop_returns:
  "insert_loop n sz s search v = Inr (n', sz', old, upd) \<Longrightarrow>
   (old, upd) = get_loop n search \<and> sz' = (if upd then sz else sz + 1)"
proof (induction n sz s search v arbitrary: n' rule: insert_loop_induct)
  case (step n sz s search v)
  from step.prems show ?case
  proof (cases rule: insert_loop_elim)
    case exhausted
    then show ?thesis by (auto simp: get_loop_Nil split: option.splits)
  next
    case new_edge
    then show ?thesis by (simp add: get_loop_step)
  next
    case (descend c c' as bs)
    from step.IH [OF descend(1,2,3,5)] descend(1,2,3) show ?thesis
      by (simp add: get_loop_step get_via_def)
  next
    case (split c as bs)
    then show ?thesis by (simp add: get_loop_step get_via_def)
  qed
qed

lemma sorted_new_leaf: "sorted_node (Node lf p [])"
  by simp

lemma sorted_split_node:
  assumes "\<not> HasPrefix search (prefix c)" "sorted_node c"
  shows "sorted_node (split_node c s search v)"
proof -
  obtain pre ps ss where f: "ss \<noteq> [] \<longrightarrow> hd ss \<noteq> hd ps"
      "split_node c s search v =
             (if ss = [] then
                Node (Some (LeafNode s v)) pre [Edge (hd ps) (Node (leaf c) ps (edges c))]
              else Node None pre
                (if hd ps \<le> hd ss
                 then [Edge (hd ps) (Node (leaf c) ps (edges c)),
                       Edge (hd ss) (Node (Some (LeafNode s v)) ss [])]
                 else [Edge (hd ss) (Node (Some (LeafNode s v)) ss []),
                       Edge (hd ps) (Node (leaf c) ps (edges c))]))"
    using split_node_form [OF assms(1), of s v] by (elim exE conjE)
  have "sorted_node (Node (leaf c) ps (edges c))" using assms(2) by (cases c) simp
  with f show ?thesis by auto
qed

lemma insert_loop_sorted:
  "sorted_node n \<Longrightarrow> insert_loop n sz s search v = Inr (n', sz', old, upd) \<Longrightarrow> sorted_node n'"
proof (induction n sz s search v arbitrary: n' rule: insert_loop_induct)
  case (step n sz s search v)
  note sn = step.prems(1)
  have so: "sorted_wrt (<) (map label (edges n))" using sn by (rule sorted_node_edges)
  have ch: "\<forall>e \<in> set (edges n). sorted_node (node e)"
    using sn sorted_node_children by blast
  from step.prems(2) show ?case
  proof (cases rule: insert_loop_elim)
    case exhausted
    then show ?thesis using so ch by (auto simp: sorted_edges_iff split: option.splits)
  next
    case new_edge
    let ?e = "Edge (hd search) (Node (Some (LeafNode s v)) search [])"
    have "lookup (edges n) (hd search) = None"
      using new_edge(2) getEdge_lookup [OF so] by simp
    then have "label ?e \<notin> set (map label (edges n))" by (simp add: lookup_None_iff)
    from Sort_edges_snoc [OF so this] obtain as bs where
      ab: "edges n = as @ bs" "Sort_edges (edges n @ [?e]) = as @ ?e # bs"
        "sorted_wrt (<) (map label (as @ ?e # bs))" by (elim exE conjE)
    have "\<forall>e \<in> set (as @ ?e # bs). sorted_node (node e)"
      using ch ab(1) by auto
    with ab(2,3) new_edge(3) show ?thesis by (simp add: sorted_edges_iff addEdge_def)
  next
    case (descend c c' as bs)
    have "sorted_node c" using sn descend(4) by (rule sorted_node_child)
    from step.IH [OF descend(1,2,3) this descend(5)] have "sorted_node c'" .
    with so ch descend(4,6) show ?thesis by (simp add: sorted_edges_iff)
  next
    case (split c as bs)
    have "sorted_node c" using sn split(4) by (rule sorted_node_child)
    from sorted_split_node [OF split(3) this] have "sorted_node (split_node c s search v)" .
    with so ch split(4,5) show ?thesis by (simp add: sorted_edges_iff)
  qed
qed

lemma insert_loop_get:
  "sorted_node n \<Longrightarrow> insert_loop n sz s search v = Inr (n', sz', old, upd) \<Longrightarrow>
   get_loop n' k = (if k = search then (Some v, True) else get_loop n k)"
proof (induction n sz s search v arbitrary: n' k rule: insert_loop_induct)
  case (step n sz s search v)
  note sn = step.prems(1)
  have so: "sorted_wrt (<) (map label (edges n))" using sn by (rule sorted_node_edges)
  from step.prems(2) show ?case
  proof (cases rule: insert_loop_elim)
    case exhausted
    then have e: "edges n' = edges n" and l: "\<exists>lf. leaf n' = Some lf \<and> Val lf = v"
      by (auto split: option.splits)
    show ?thesis
    proof (cases "k = []")
      case True
      with exhausted(1) l show ?thesis by (auto simp: get_loop_Nil)
    next
      case False
      with exhausted(1) getEdge_cong [OF e] show ?thesis by (simp add: get_loop_step)
    qed
  next
    case new_edge
    let ?new = "Node (Some (LeafNode s v)) search []"
    let ?e = "Edge (hd search) ?new"
    have "lookup (edges n) (hd search) = None"
      using new_edge(2) getEdge_lookup [OF so] by simp
    then have fresh: "label ?e \<notin> set (map label (edges n))" by (simp add: lookup_None_iff)
    from Sort_edges_snoc [OF so fresh] obtain as bs where
      ab: "edges n = as @ bs" "Sort_edges (edges n @ [?e]) = as @ ?e # bs"
        "sorted_wrt (<) (map label (as @ ?e # bs))" by (elim exE conjE)
    have en': "edges n' = as @ ?e # bs" and ln': "leaf n' = leaf n"
      using new_edge(3) ab(2) by (simp_all add: addEdge_def)
    have g: "getEdge n' l = (if l = hd search then Some ?new else getEdge n l)" for l
    proof -
      have "getEdge n' l = lookup (as @ ?e # bs) l"
        using getEdge_lookup [of n' l] ab(3) en' by simp
      also have "\<dots> = (if l = hd search then Some ?new else lookup (as @ bs) l)"
        using lookup_insert_mid [of ?e as bs l] fresh ab(1) by simp
      also have "lookup (as @ bs) l = getEdge n l"
        using getEdge_lookup [OF so, of l] ab(1) by simp
      finally show ?thesis .
    qed
    show ?thesis
    proof (cases "k = []")
      case True
      with new_edge(1) ln' show ?thesis by (simp add: get_loop_Nil)
    next
      case False
      show ?thesis
      proof (cases "hd k = hd search")
        case True
        with False new_edge(1,2) g [of "hd k"] show ?thesis
          by (simp add: get_loop_step get_via_new_leaf)
      next
        case nh: False
        then have "k \<noteq> search" by auto
        with False nh g [of "hd k"] show ?thesis by (simp add: get_loop_step)
      qed
    qed
  next
    case (descend c c' as bs)
    have sc: "sorted_node c" using sn descend(4) by (rule sorted_node_child)
    note ih = step.IH [OF descend(1,2,3) sc descend(5)]
    have pc: "prefix c' = prefix c" using descend(5) by (rule insert_loop_prefix)
    have so': "sorted_wrt (<) (map label (as @ Edge (hd search) c # bs))"
      using so descend(4) by simp
    have g: "getEdge n' l = (if l = hd search then Some c' else getEdge n l)" for l
    proof -
      have "getEdge n' l = lookup (as @ Edge (hd search) c' # bs) l"
        using getEdge_lookup [of n' l] sorted_replace [OF so'] descend(6) by simp
      also have "\<dots> = (if l = hd search then Some c'
                       else lookup (as @ Edge (hd search) c # bs) l)"
        by (rule lookup_replace [OF so'])
      also have "lookup (as @ Edge (hd search) c # bs) l = getEdge n l"
        using getEdge_lookup [OF so, of l] descend(4) by simp
      finally show ?thesis .
    qed
    have via: "get_via c' k = (if k = search then (Some v, True) else get_via c k)"
    proof (cases "HasPrefix k (prefix c)")
      case False
      then have "k \<noteq> search" using descend(3) by auto
      with False pc show ?thesis by (simp add: get_via_def)
    next
      case True
      have "drop (length (prefix c)) k = drop (length (prefix c)) search \<longleftrightarrow> k = search"
        using True descend(3) by (auto simp: HasPrefix_iff)
      with True pc ih [of "drop (length (prefix c)) k"] descend(3) show ?thesis
        by (simp add: get_via_def)
    qed
    show ?thesis
    proof (cases "k = []")
      case True
      with descend(1,6) show ?thesis by (simp add: get_loop_Nil)
    next
      case False
      show ?thesis
      proof (cases "hd k = hd search")
        case True
        with False descend(2) g [of "hd k"] via show ?thesis by (simp add: get_loop_step)
      next
        case nh: False
        then have "k \<noteq> search" by auto
        with False nh g [of "hd k"] show ?thesis by (simp add: get_loop_step)
      qed
    qed
  next
    case (split c as bs)
    let ?sp = "split_node c s search v"
    have so': "sorted_wrt (<) (map label (as @ Edge (hd search) c # bs))"
      using so split(4) by simp
    have g: "getEdge n' l = (if l = hd search then Some ?sp else getEdge n l)" for l
    proof -
      have "getEdge n' l = lookup (as @ Edge (hd search) ?sp # bs) l"
        using getEdge_lookup [of n' l] sorted_replace [OF so'] split(5) by simp
      also have "\<dots> = (if l = hd search then Some ?sp
                       else lookup (as @ Edge (hd search) c # bs) l)"
        by (rule lookup_replace [OF so'])
      also have "lookup (as @ Edge (hd search) c # bs) l = getEdge n l"
        using getEdge_lookup [OF so, of l] split(4) by simp
      finally show ?thesis .
    qed
    note via = get_via_split_node [OF split(3), of s v k]
    show ?thesis
    proof (cases "k = []")
      case True
      with split(1,5) show ?thesis by (simp add: get_loop_Nil)
    next
      case False
      show ?thesis
      proof (cases "hd k = hd search")
        case True
        with False split(2) g [of "hd k"] via show ?thesis by (simp add: get_loop_step)
      next
        case nh: False
        then have "k \<noteq> search" by auto
        with False nh g [of "hd k"] show ?thesis by (simp add: get_loop_step)
      qed
    qed
  qed
qed

text \<open>
  C4. For every tree whose edge tables are sorted by label (as \<open>addEdge\<close> leaves them),
  every key \<open>k\<close> and every value \<open>v\<close>: \<open>Insert(k, v)\<close> returns, and \<open>Get(k)\<close> on the
  tree it leaves yields \<open>(v, true)\<close>.
\<close>

theorem Insert_then_Get:
  assumes "sorted_node (root t)"
  shows "\<exists>t' old upd. Insert t k v = Inr (t', old, upd) \<and> Get t' k = (Some v, True)"
proof -
  obtain n' sz' old upd where
    i: "insert_loop (root t) (size_tree t) k k v = Inr (n', sz', old, upd)"
    using insert_loop_total [of "root t" "size_tree t" k k v] by (elim exE)
  have "get_loop n' k = (Some v, True)" using insert_loop_get [OF assms i, of k] by simp
  with i show ?thesis by (simp add: Insert_def Get_def)
qed

theorem Insert_then_Get_witness:
  "sorted_node (root tree_a_ab) \<and>
   (\<exists>t' old upd. Insert tree_a_ab ''ac'' 5 = Inr (t', old, upd) \<and> Get t' ''ac'' = (Some 5, True))"
proof -
  have h: "sorted_node (root tree_a_ab)" by (simp add: tree_a_ab_def)
  from h Insert_then_Get [OF h, of "''ac''" 5] show ?thesis by simp
qed

section \<open>The size counter\<close>

lemma recursiveWalk_entries:
  "never_stops fn \<Longrightarrow> recursiveWalk n fn st = (False, foldl (call_walk fn) st (entries n))"
  "never_stops fn \<Longrightarrow> walk_edges es fn st = (False, foldl (call_walk fn) st (entries_below es))"
proof (induction n fn st and es fn st rule: recursiveWalk_walk_edges.induct)
  case (1 lfo p es fn st)
  show ?case
  proof (cases lfo)
    case None
    with 1 show ?thesis by simp
  next
    case (Some lf)
    obtain b st' where f: "fn (Key lf) (Val lf) st = (b, st')" by (cases "fn (Key lf) (Val lf) st")
    have "\<not> fst (fn (Key lf) (Val lf) st)" using "1.prems" unfolding never_stops_def by blast
    then have nb: "\<not> b" using f by simp
    have "walk_edges es fn st' = (False, foldl (call_walk fn) st' (entries_below es))"
      using "1.IH"(2) [OF Some f [symmetric]] nb "1.prems" by simp
    moreover have "call_walk fn st lf = st'" using f by (simp add: call_walk_def)
    ultimately show ?thesis using Some f nb by simp
  qed
next
  case (2 fn st)
  show ?case by simp
next
  case (3 l n es fn st)
  have a: "recursiveWalk n fn st = (False, foldl (call_walk fn) st (entries n))"
    using "3.IH"(1) "3.prems" by simp
  have "walk_edges es fn (foldl (call_walk fn) st (entries n)) =
        (False, foldl (call_walk fn) (foldl (call_walk fn) st (entries n)) (entries_below es))"
    using "3.IH"(2) [OF a [symmetric]] "3.prems" by simp
  with a show ?case by simp
qed

lemma count_walk:
  "snd (recursiveWalk n (\<lambda>s v cnt. (False, cnt + 1)) (0::int)) = int (length (entries n))"
proof -
  let ?fn = "\<lambda>(s::string) (v::'a) (cnt::int). (False, cnt + 1)"
  have ns: "never_stops ?fn" by (simp add: never_stops_def)
  have "foldl (call_walk ?fn) c xs = c + int (length xs)" for c and xs :: "'a LeafNode list"
    by (induction xs arbitrary: c) (simp_all add: call_walk_def)
  then show ?thesis by (simp add: recursiveWalk_entries(1) [OF ns])
qed

lemma entries_below_append [simp]:
  "entries_below (as @ bs) = entries_below as @ entries_below bs"
proof (induction as)
  case Nil
  show ?case by simp
next
  case (Cons e as)
  then show ?case by (cases e) simp
qed

lemma entries_Node:
  "entries n = (case leaf n of Some lf \<Rightarrow> [lf] | None \<Rightarrow> []) @ entries_below (edges n)"
  by (cases n) simp

lemma length_entries_insort:
  "length (entries_below (insort_key f e es)) = length (entries (node e)) + length (entries_below es)"
proof (induction es)
  case Nil
  show ?case by (cases e) simp
next
  case (Cons x es)
  then show ?case by (cases x; cases e) simp
qed

lemma length_entries_sort:
  "length (entries_below (sort_key f es)) = length (entries_below es)"
proof (induction es)
  case Nil
  show ?case by simp
next
  case (Cons x es)
  then show ?case by (cases x) (simp add: length_entries_insort)
qed

lemma mergeChild_merged: "edges n \<noteq> [] \<Longrightarrow> mergeChild n = Inr (merged n)"
  by (cases "edges n") (simp_all add: mergeChild_def merged_def Let_def)

lemma delete_block_eq:
  assumes "leaf n = Some lf"
  shows "delete_block par n sz =
     Inr (case par of
            None \<Rightarrow> Node None (prefix n) (edges n)
          | Some (r, p, l) \<Rightarrow>
              (let n1 = Node None (prefix n) (edges n);
                   p1 = (if edges n = [] then delEdge p l
                         else writeBack p l (if length (edges n) = 1 then merged n1 else n1))
               in if \<not> r \<and> length (edges p1) = 1 \<and> \<not> isLeaf p1 then merged p1 else p1),
          sz - 1, Some (Val lf), True)"
proof (cases par)
  case None
  with assms show ?thesis by (simp add: delete_block_def)
next
  case (Some x)
  obtain r p l where x: "x = (r, p, l)" by (cases x)
  let ?n1 = "Node None (prefix n) (edges n)"
  let ?p1 = "if edges n = [] then delEdge p l
             else writeBack p l (if length (edges n) = 1 then merged ?n1 else ?n1)"
  have m1: "length (edges n) = 1 \<Longrightarrow> mergeChild ?n1 = Inr (merged ?n1)"
    by (rule mergeChild_merged) auto
  have a: "(if length (edges ?n1) = 0 then Inr (delEdge p l)
            else if length (edges ?n1) = 1 then
              (case mergeChild ?n1 of Inl e \<Rightarrow> Inl e | Inr n2 \<Rightarrow> Inr (writeBack p l n2))
            else Inr (writeBack p l ?n1)) = Inr ?p1"
    using m1 by auto
  have m2: "length (edges ?p1) = 1 \<Longrightarrow> mergeChild ?p1 = Inr (merged ?p1)"
    by (rule mergeChild_merged) auto
  show ?thesis
    unfolding delete_block_def assms Some x Let_def option.case prod.case a sum.case
    using m2 by (simp add: Let_def)
qed

lemma delete_loop_induct [case_names step]:
  fixes P :: "'v parent \<Rightarrow> 'v node \<Rightarrow> int \<Rightarrow> string \<Rightarrow> bool"
  assumes "\<And>par n sz search.
      (\<And>c. search \<noteq> [] \<Longrightarrow> getEdge n (hd search) = Some c \<Longrightarrow> HasPrefix search (prefix c) \<Longrightarrow>
         P (Some (par = None, n, hd search)) c sz (drop (length (prefix c)) search)) \<Longrightarrow>
      P par n sz search"
  shows "P par n sz search"
proof (induction par n sz search rule: delete_loop.induct)
  case (1 par n sz search)
  show ?case
  proof (rule assms)
    fix c assume a: "search \<noteq> []" "getEdge n (hd search) = Some c" "HasPrefix search (prefix c)"
    from "1.IH" [OF a(1) refl a(2) a(3)]
    show "P (Some (par = None, n, hd search)) c sz (drop (length (prefix c)) search)" .
  qed
qed

lemma delete_loop_Nil:
  "delete_loop par n sz [] =
     (if \<not> isLeaf n then Inr (top par n, sz, None, False) else delete_block par n sz)"
  by (subst delete_loop.simps) simp

lemma delete_loop_step:
  "search \<noteq> [] \<Longrightarrow>
   delete_loop par n sz search =
     (case getEdge n (hd search) of
        None \<Rightarrow> Inr (top par n, sz, None, False)
      | Some c \<Rightarrow>
          if HasPrefix search (prefix c) then
            (case delete_loop (Some (par = None, n, hd search)) c sz
                    (drop (length (prefix c)) search) of
               Inl e \<Rightarrow> Inl e
             | Inr (n', r) \<Rightarrow> Inr (plug par n', r))
          else Inr (top par n, sz, None, False))"
  by (subst delete_loop.simps) (simp add: Let_def)

lemma deletePrefix_induct [case_names step]:
  fixes P :: "'v parent \<Rightarrow> 'v node \<Rightarrow> int \<Rightarrow> string \<Rightarrow> bool"
  assumes "\<And>par n sz pfx.
      (\<And>c. pfx \<noteq> [] \<Longrightarrow> getEdge n (hd pfx) = Some c \<Longrightarrow>
           HasPrefix (prefix c) pfx \<or> HasPrefix pfx (prefix c) \<Longrightarrow>
         P (Some (par = None, n, hd pfx)) c sz
           (if length (prefix c) > length pfx then [] else drop (length (prefix c)) pfx)) \<Longrightarrow>
      P par n sz pfx"
  shows "P par n sz pfx"
proof (induction par n sz pfx rule: deletePrefix.induct)
  case (1 par n sz pfx)
  show ?case
  proof (rule assms)
    fix c assume a: "pfx \<noteq> []" "getEdge n (hd pfx) = Some c"
      "HasPrefix (prefix c) pfx \<or> HasPrefix pfx (prefix c)"
    then have b: "\<not> (\<not> HasPrefix (prefix c) pfx \<and> \<not> HasPrefix pfx (prefix c))" by simp
    from "1.IH" [OF a(1) refl a(2) b refl]
    show "P (Some (par = None, n, hd pfx)) c sz
           (if length (prefix c) > length pfx then [] else drop (length (prefix c)) pfx)"
      by (cases "length (prefix c) > length pfx") simp_all
  qed
qed

lemma deletePrefix_Nil:
  "deletePrefix par n sz [] =
     Inr (case par of
            None \<Rightarrow> Node None (prefix n) []
          | Some (r, p, l) \<Rightarrow>
              (let p1 = writeBack p l (Node None (prefix n) [])
               in if \<not> r \<and> length (edges p1) = 1 \<and> \<not> isLeaf p1 then merged p1 else p1),
          sz - int (length (entries n)), int (length (entries n)))"
proof (cases par)
  case None
  then show ?thesis by (subst deletePrefix.simps) (simp add: count_walk Let_def)
next
  case (Some x)
  obtain r p l where x: "x = (r, p, l)" by (cases x)
  let ?p1 = "writeBack p l (Node None (prefix n) [])"
  have m: "length (edges ?p1) = 1 \<Longrightarrow> mergeChild ?p1 = Inr (merged ?p1)"
    by (rule mergeChild_merged) auto
  show ?thesis
    using m by (subst deletePrefix.simps) (simp add: count_walk Some x Let_def)
qed

lemma deletePrefix_step:
  "pfx \<noteq> [] \<Longrightarrow>
   deletePrefix par n sz pfx =
     (case getEdge n (hd pfx) of
        None \<Rightarrow> Inr (top par n, sz, 0)
      | Some c \<Rightarrow>
          if HasPrefix (prefix c) pfx \<or> HasPrefix pfx (prefix c) then
            (case deletePrefix (Some (par = None, n, hd pfx)) c sz
                    (if length (prefix c) > length pfx then []
                     else drop (length (prefix c)) pfx) of
               Inl e \<Rightarrow> Inl e
             | Inr (n', r) \<Rightarrow> Inr (plug par n', r))
          else Inr (top par n, sz, 0))"
  by (subst deletePrefix.simps) (auto simp add: Let_def split: option.splits)

lemma length_entries_merged:
  "leaf m = None \<Longrightarrow> length (edges m) = 1 \<Longrightarrow> length (entries (merged m)) = length (entries m)"
proof -
  assume a: "leaf m = None" "length (edges m) = 1"
  then obtain e where e: "edges m = [e]" by (cases "edges m") auto
  obtain l c where ec: "e = Edge l c" by (cases e)
  have "entries (merged m) = entries c"
    using e ec by (simp add: merged_def entries_Node [of c])
  moreover have "entries m = entries c" using a e ec by (simp add: entries_Node [of m])
  ultimately show ?thesis by simp
qed

lemma length_entries_replace:
  assumes "edges p = as @ Edge l n # bs"
  shows "int (length (entries (Node (leaf p) (prefix p) (as @ Edge l n' # bs)))) =
         int (length (entries p)) - int (length (entries n)) + int (length (entries n'))"
  using assms by (simp add: entries_Node [of p])

lemma length_entries_remove:
  assumes "edges p = as @ Edge l n # bs"
  shows "int (length (entries (Node (leaf p) (prefix p) (as @ bs)))) =
         int (length (entries p)) - int (length (entries n))"
  using assms by (simp add: entries_Node [of p])

lemma length_entries_plug:
  assumes "par_ok par n"
  shows "int (length (entries (plug par n'))) =
         int (length (entries (top par n))) - int (length (entries n)) + int (length (entries n'))"
proof (cases par)
  case None
  then show ?thesis by (simp add: plug_def top_def)
next
  case (Some x)
  obtain r p l where x: "x = (r, p, l)" by (cases x)
  have g: "getEdge p l = Some n" using assms Some x by (simp add: par_ok_def)
  obtain as bs where ab: "edges p = as @ Edge l n # bs" "edgeIndex (edges p) l = length as"
    using getEdge_split [OF g] by (elim exE conjE)
  show ?thesis
    using length_entries_replace [OF ab(1), of n']
    by (simp add: Some x plug_def top_def writeBack_split [OF ab])
qed

lemma length_entries_merge_parent:
  "length (entries (merge_parent r p1)) = length (entries p1)"
  by (simp add: merge_parent_def length_entries_merged isLeaf_def)

lemma delete_block_count:
  assumes "par_ok par n" "leaf n = Some lf"
  shows "\<exists>r. delete_block par n sz = Inr (r, sz - 1, Some (Val lf), True) \<and>
             int (length (entries r)) = int (length (entries (top par n))) - 1"
proof (cases par)
  case None
  then show ?thesis
    using assms(2) by (simp add: delete_block_eq [OF assms(2)] top_def entries_Node [of n])
next
  case (Some x)
  obtain r p l where x: "x = (r, p, l)" by (cases x)
  have g: "getEdge p l = Some n" using assms Some x by (simp add: par_ok_def)
  obtain as bs where ab: "edges p = as @ Edge l n # bs" "edgeIndex (edges p) l = length as"
    using getEdge_split [OF g] by (elim exE conjE)
  let ?n1 = "Node None (prefix n) (edges n)"
  let ?p1 = "if edges n = [] then delEdge p l
             else writeBack p l (if length (edges n) = 1 then merged ?n1 else ?n1)"
  have cn: "int (length (entries n)) = 1 + int (length (entries_below (edges n)))"
    using assms(2) by (simp add: entries_Node [of n])
  have cn1: "length (entries ?n1) = length (entries_below (edges n))" by simp
  have cm: "length (edges n) = 1 \<Longrightarrow> length (entries (merged ?n1)) = length (entries ?n1)"
    by (rule length_entries_merged) simp_all
  have c1: "int (length (entries ?p1)) = int (length (entries p)) - 1"
  proof (cases "edges n = []")
    case True
    then show ?thesis
      using length_entries_remove [OF ab(1)] cn by (simp add: delEdge_split [OF ab])
  next
    case False
    then show ?thesis
      using length_entries_replace [OF ab(1)] cn cn1 cm
      by (simp add: writeBack_split [OF ab] del: entries.simps)
  qed
  have "delete_block par n sz = Inr (merge_parent r ?p1, sz - 1, Some (Val lf), True)"
    by (simp add: delete_block_eq [OF assms(2)] Some x Let_def merge_parent_def)
  moreover have "int (length (entries (merge_parent r ?p1))) =
                 int (length (entries (top par n))) - 1"
    using c1 by (simp add: length_entries_merge_parent Some x top_def)
  ultimately show ?thesis by blast
qed

lemma delete_loop_count:
  "par_ok par n \<Longrightarrow>
   \<exists>r sz' old f. delete_loop par n sz search = Inr (r, sz', old, f) \<and>
     int (length (entries r)) - sz' = int (length (entries (top par n))) - sz"
proof (induction par n sz search rule: delete_loop_induct)
  case (step par n sz search)
  note ok = step.prems
  show ?case
  proof (cases "search = []")
    case True
    show ?thesis
    proof (cases "leaf n")
      case None
      with True show ?thesis by (auto simp: delete_loop_Nil isLeaf_def)
    next
      case (Some lf)
      from delete_block_count [OF ok Some, of sz] obtain r where
        "delete_block par n sz = Inr (r, sz - 1, Some (Val lf), True)"
        "int (length (entries r)) = int (length (entries (top par n))) - 1" by (elim exE conjE)
      with True Some show ?thesis by (auto simp: delete_loop_Nil isLeaf_def)
    qed
  next
    case ne: False
    show ?thesis
    proof (cases "getEdge n (hd search)")
      case None
      with ne show ?thesis by (auto simp: delete_loop_step)
    next
      case (Some c)
      show ?thesis
      proof (cases "HasPrefix search (prefix c)")
        case False
        with ne Some show ?thesis by (auto simp: delete_loop_step)
      next
        case True
        let ?par' = "Some (par = None, n, hd search)"
        have ok': "par_ok ?par' c" using Some by (simp add: par_ok_def)
        from step.IH [OF ne Some True ok'] obtain n' sz' old f where
          r: "delete_loop ?par' c sz (drop (length (prefix c)) search) = Inr (n', sz', old, f)"
          and c: "int (length (entries n')) - sz' = int (length (entries (top ?par' c))) - sz"
          by (elim exE conjE)
        have "delete_loop par n sz search = Inr (plug par n', sz', old, f)"
          using ne Some True r by (simp add: delete_loop_step)
        moreover have "int (length (entries (plug par n'))) - sz' =
                       int (length (entries (top par n))) - sz"
          using length_entries_plug [OF ok, of n'] c by (simp add: top_def)
        ultimately show ?thesis by blast
      qed
    qed
  qed
qed

lemma deletePrefix_count:
  "par_ok par n \<Longrightarrow>
   \<exists>r sz' cnt. deletePrefix par n sz pfx = Inr (r, sz', cnt) \<and>
     int (length (entries r)) - sz' = int (length (entries (top par n))) - sz"
proof (induction par n sz pfx rule: deletePrefix_induct)
  case (step par n sz pfx)
  note ok = step.prems
  show ?case
  proof (cases "pfx = []")
    case True
    let ?n1 = "Node None (prefix n) []"
    have "int (length (entries (plug par ?n1))) =
          int (length (entries (top par n))) - int (length (entries n))"
      using length_entries_plug [OF ok, of ?n1] by simp
    moreover have "\<exists>r. deletePrefix par n sz [] =
                     Inr (r, sz - int (length (entries n)), int (length (entries n))) \<and>
                     length (entries r) = length (entries (plug par ?n1))"
    proof (cases par)
      case None
      then show ?thesis by (simp add: deletePrefix_Nil plug_def)
    next
      case (Some x)
      obtain r p l where x: "x = (r, p, l)" by (cases x)
      have "deletePrefix par n sz [] =
              Inr (merge_parent r (writeBack p l ?n1),
                   sz - int (length (entries n)), int (length (entries n)))"
        by (simp add: deletePrefix_Nil Some x Let_def merge_parent_def)
      then show ?thesis
        by (simp add: length_entries_merge_parent plug_def Some x)
    qed
    ultimately show ?thesis using True by auto
  next
    case ne: False
    show ?thesis
    proof (cases "getEdge n (hd pfx)")
      case None
      with ne show ?thesis by (auto simp: deletePrefix_step)
    next
      case (Some c)
      show ?thesis
      proof (cases "HasPrefix (prefix c) pfx \<or> HasPrefix pfx (prefix c)")
        case False
        with ne Some show ?thesis by (auto simp: deletePrefix_step)
      next
        case True
        let ?par' = "Some (par = None, n, hd pfx)"
        let ?pfx' = "if length (prefix c) > length pfx then [] else drop (length (prefix c)) pfx"
        have ok': "par_ok ?par' c" using Some by (simp add: par_ok_def)
        from step.IH [OF ne Some True ok'] obtain n' sz' cnt where
          r: "deletePrefix ?par' c sz ?pfx' = Inr (n', sz', cnt)"
          and c: "int (length (entries n')) - sz' = int (length (entries (top ?par' c))) - sz"
          by (elim exE conjE)
        have "deletePrefix par n sz pfx = Inr (plug par n', sz', cnt)"
          using ne Some True r by (simp add: deletePrefix_step)
        moreover have "int (length (entries (plug par n'))) - sz' =
                       int (length (entries (top par n))) - sz"
          using length_entries_plug [OF ok, of n'] c by (simp add: top_def)
        ultimately show ?thesis by blast
      qed
    qed
  qed
qed

lemma length_entries_split_node:
  assumes "\<not> HasPrefix search (prefix c)"
  shows "length (entries (split_node c s search v)) = Suc (length (entries c))"
proof -
  obtain pre ps ss where f:
      "split_node c s search v =
             (if ss = [] then
                Node (Some (LeafNode s v)) pre [Edge (hd ps) (Node (leaf c) ps (edges c))]
              else Node None pre
                (if hd ps \<le> hd ss
                 then [Edge (hd ps) (Node (leaf c) ps (edges c)),
                       Edge (hd ss) (Node (Some (LeafNode s v)) ss [])]
                 else [Edge (hd ss) (Node (Some (LeafNode s v)) ss []),
                       Edge (hd ps) (Node (leaf c) ps (edges c))]))"
    using split_node_form [OF assms, of s v] by (elim exE conjE)
  show ?thesis unfolding f by (simp add: entries_Node [of c])
qed

lemma insert_loop_count:
  "insert_loop n sz s search v = Inr (n', sz', old, upd) \<Longrightarrow>
   int (length (entries n')) - sz' = int (length (entries n)) - sz"
proof (induction n sz s search v arbitrary: n' rule: insert_loop_induct)
  case (step n sz s search v)
  from step.prems show ?case
  proof (cases rule: insert_loop_elim)
    case exhausted
    then show ?thesis by (auto simp: entries_Node [of n] split: option.splits)
  next
    case new_edge
    then show ?thesis
      by (simp add: addEdge_def Sort_edges_def length_entries_sort entries_Node [of n])
  next
    case (descend c c' as bs)
    from step.IH [OF descend(1,2,3,5)] length_entries_replace [OF descend(4), of c']
    show ?thesis by (simp add: descend(6))
  next
    case (split c as bs)
    from length_entries_split_node [OF split(3), of s v]
      length_entries_replace [OF split(4), of "split_node c s search v"]
    show ?thesis by (simp add: split(5,6))
  qed
qed

lemma size_ok_apply_op:
  assumes "size_ok t"
  shows "\<exists>t'. apply_op t x = Inr t' \<and> size_ok t'"
proof (cases x)
  case (OpInsert k v)
  obtain n' sz' old upd where
    i: "insert_loop (root t) (size_tree t) k k v = Inr (n', sz', old, upd)"
    using insert_loop_total [of "root t" "size_tree t" k k v] by (elim exE)
  from insert_loop_count [OF i] assms have "sz' = int (length (entries n'))"
    by (simp add: size_ok_def)
  with i OpInsert show ?thesis by (simp add: Insert_def size_ok_def)
next
  case (OpDelete k)
  have ok: "par_ok None (root t)" by (simp add: par_ok_def)
  from delete_loop_count [OF ok, of "size_tree t" k] obtain r sz' old f where
    d: "delete_loop None (root t) (size_tree t) k = Inr (r, sz', old, f)"
    and c: "int (length (entries r)) - sz' =
            int (length (entries (top None (root t)))) - size_tree t"
    by (elim exE conjE)
  from c assms have "sz' = int (length (entries r))" by (simp add: size_ok_def top_def)
  with d OpDelete show ?thesis by (simp add: Delete_def size_ok_def)
next
  case (OpDeletePrefix p)
  have ok: "par_ok None (root t)" by (simp add: par_ok_def)
  from deletePrefix_count [OF ok, of "size_tree t" p] obtain r sz' cnt where
    d: "deletePrefix None (root t) (size_tree t) p = Inr (r, sz', cnt)"
    and c: "int (length (entries r)) - sz' =
            int (length (entries (top None (root t)))) - size_tree t"
    by (elim exE conjE)
  from c assms have "sz' = int (length (entries r))" by (simp add: size_ok_def top_def)
  with d OpDeletePrefix show ?thesis by (simp add: DeletePrefix_def size_ok_def)
qed

lemma size_ok_run: "size_ok t \<Longrightarrow> \<exists>t'. run t ops = Inr t' \<and> size_ok t'"
proof (induction ops arbitrary: t)
  case Nil
  then show ?case by simp
next
  case (Cons x ops)
  from size_ok_apply_op [OF Cons.prems, of x] obtain t1 where
    a: "apply_op t x = Inr t1" "size_ok t1" by (elim exE conjE)
  from Cons.IH [OF a(2)] obtain t' where "run t1 ops = Inr t'" "size_ok t'"
    by (elim exE conjE)
  with a(1) show ?case by simp
qed

lemma Insert_props:
  assumes "sorted_node (root t)"
  shows "\<exists>t' old upd. Insert t k v = Inr (t', old, upd) \<and> sorted_node (root t') \<and>
           stored_keys t' = insert k (stored_keys t) \<and>
           Len t' = (if k \<in> stored_keys t then Len t else Len t + 1) \<and>
           (old, upd) = Get t k"
proof -
  obtain n' sz' old upd where
    i: "insert_loop (root t) (size_tree t) k k v = Inr (n', sz', old, upd)"
    using insert_loop_total [of "root t" "size_tree t" k k v] by (elim exE)
  have s: "sorted_node n'" using insert_loop_sorted [OF assms i] .
  have g: "get_loop n' k' = (if k' = k then (Some v, True) else get_loop (root t) k')" for k'
    using insert_loop_get [OF assms i, of k'] .
  have r: "(old, upd) = get_loop (root t) k" "sz' = (if upd then size_tree t else size_tree t + 1)"
    using insert_loop_returns [OF i] by simp_all
  have u: "upd \<longleftrightarrow> k \<in> stored_keys t"
    using r(1) by (simp add: stored_keys_def Get_def) (metis snd_conv)
  let ?t' = "\<lparr>root = n', size_tree = sz'\<rparr>"
  have "stored_keys ?t' = insert k (stored_keys t)"
    using g by (auto simp: stored_keys_def Get_def)
  moreover have "Insert t k v = Inr (?t', old, upd)" using i by (simp add: Insert_def)
  moreover have "Len ?t' = (if k \<in> stored_keys t then Len t else Len t + 1)"
    using r(2) u by (simp add: Len_def)
  ultimately have "Insert t k v = Inr (?t', old, upd) \<and> sorted_node (root ?t') \<and>
           stored_keys ?t' = insert k (stored_keys t) \<and>
           Len ?t' = (if k \<in> stored_keys t then Len t else Len t + 1) \<and>
           (old, upd) = Get t k"
    using s r(1) by (simp add: Get_def)
  then show ?thesis by blast
qed

lemma run_inserts:
  "sorted_node (root t) \<Longrightarrow> finite (stored_keys t) \<Longrightarrow> Len t = int (card (stored_keys t)) \<Longrightarrow>
   \<exists>t'. run t (insert_ops kvs) = Inr t' \<and> sorted_node (root t') \<and>
        stored_keys t' = stored_keys t \<union> set (map fst kvs) \<and>
        Len t' = int (card (stored_keys t'))"
proof (induction kvs arbitrary: t)
  case Nil
  then show ?case by (simp add: insert_ops_def)
next
  case (Cons kv kvs)
  obtain k v where kv: "kv = (k, v)" by (cases kv)
  from Insert_props [OF Cons.prems(1), of k v] obtain t1 old upd where
    i: "Insert t k v = Inr (t1, old, upd)" and s1: "sorted_node (root t1)"
    and k1: "stored_keys t1 = insert k (stored_keys t)"
    and l1: "Len t1 = (if k \<in> stored_keys t then Len t else Len t + 1)"
    by (elim exE conjE)
  have f1: "finite (stored_keys t1)" using k1 Cons.prems(2) by simp
  have c1: "Len t1 = int (card (stored_keys t1))"
    using l1 k1 Cons.prems(2,3) by (simp add: insert_absorb)
  from Cons.IH [OF s1 f1 c1] obtain t' where
    r: "run t1 (insert_ops kvs) = Inr t'" "sorted_node (root t')"
      "stored_keys t' = stored_keys t1 \<union> set (map fst kvs)"
      "Len t' = int (card (stored_keys t'))" by (elim exE conjE)
  have "run t (insert_ops (kv # kvs)) = Inr t'"
    using i r(1) by (simp add: insert_ops_def kv)
  moreover have "stored_keys t' = stored_keys t \<union> set (map fst (kv # kvs))"
    using r(3) k1 by (simp add: kv)
  ultimately show ?case using r(2,4) by blast
qed

lemma get_loop_empty: "get_loop (Node None p []) k = (None, False)"
  by (cases "k = []")
     (simp_all add: get_loop_Nil get_loop_step getEdge_def edgeIndex_def sort_Search_def
                    sort_Search_loop.simps)

lemma stored_keys_New: "stored_keys New = {}"
  by (simp add: stored_keys_def Get_def New_def get_loop_empty)

lemma Len_distinct_keys:
  fixes kvs :: "(string \<times> 'v) list"
  shows "\<exists>t. run New (insert_ops kvs) = Inr t \<and> Len t = int (card (set (map fst kvs)))"
proof -
  let ?N = "New :: 'v Tree"
  have "\<exists>t'. run ?N (insert_ops kvs) = Inr t' \<and> sorted_node (root t') \<and>
        stored_keys t' = stored_keys ?N \<union> set (map fst kvs) \<and>
        Len t' = int (card (stored_keys t'))"
  proof (rule run_inserts)
    show "sorted_node (root ?N)" by (simp add: New_def)
    show "finite (stored_keys ?N)" by (simp add: stored_keys_New)
    show "Len ?N = int (card (stored_keys ?N))"
      by (simp add: stored_keys_New) (simp add: New_def Len_def)
  qed
  then show ?thesis by (auto simp: stored_keys_New)
qed

lemma Len_reachable: "\<exists>t. run New ops = Inr t \<and> Len t = int (length (entries (root t)))"
proof -
  have "size_ok New" by (simp add: size_ok_def New_def)
  from size_ok_run [OF this, of ops] show ?thesis by (simp add: size_ok_def Len_def)
qed

text \<open>
  C9. After any sequence of \<open>Insert\<close> calls on a new tree, \<open>Len()\<close> is the number of
  distinct keys inserted. After any sequence of \<open>Insert\<close>, \<open>Delete\<close> and \<open>DeletePrefix\<close>
  calls on a new tree, none of which panics, the counter is the number of nodes whose stored
  entry is present; and every one of the three operations takes a tree in which the counter
  is that number to a tree in which it is.
\<close>

theorem Len_counts_entries:
  "(\<exists>t. run New (insert_ops kvs) = Inr t \<and> Len t = int (card (set (map fst kvs)))) \<and>
   (\<exists>t. run New ops = Inr t \<and> Len t = int (length (entries (root t)))) \<and>
   (size_ok t \<longrightarrow> (\<exists>t'. apply_op t x = Inr t' \<and> size_ok t'))"
  using Len_distinct_keys [of kvs] Len_reachable [of ops] size_ok_apply_op [of t x] by blast

theorem Len_counts_entries_witness:
  "size_ok tree_a_ab \<and> (\<exists>t'. apply_op tree_a_ab (OpDelete ''a'') = Inr t' \<and> size_ok t')"
proof -
  have h: "size_ok tree_a_ab" by (simp add: size_ok_def tree_a_ab_def)
  have "size_ok tree_a_ab \<longrightarrow>
        (\<exists>t'. apply_op tree_a_ab (OpDelete ''a'') = Inr t' \<and> size_ok t')"
    using Len_counts_entries [where t = tree_a_ab and x = "OpDelete ''a''"] by blast
  with h show ?thesis by simp
qed

section \<open>WalkPrefix\<close>

lemma keyed_edges_iff:
  "keyed_edges q es \<longleftrightarrow>
     (\<forall>e \<in> set es. prefix (node e) \<noteq> [] \<and> hd (prefix (node e)) = label e \<and>
                    keyed_at (q @ prefix (node e)) (node e))"
proof (induction es)
  case Nil
  show ?case by simp
next
  case (Cons e es)
  then show ?case by (cases e) auto
qed

lemma keyed_at_leaf: "keyed_at q n \<Longrightarrow> leaf n = Some lf \<Longrightarrow> Key lf = q"
  by (cases n) simp

lemma keyed_at_edges: "keyed_at q n \<Longrightarrow> keyed_edges q (edges n)"
  by (cases n) simp

lemma keyed_at_child:
  assumes "keyed_at q n" "edges n = as @ Edge l c # bs"
  shows "prefix c \<noteq> [] \<and> hd (prefix c) = l \<and> keyed_at (q @ prefix c) c"
proof -
  have "keyed_edges q (as @ Edge l c # bs)" using assms keyed_at_edges by metis
  then show ?thesis by (simp add: keyed_edges_iff)
qed

lemma entries_below_mem:
  "lf \<in> set (entries_below es) \<longleftrightarrow> (\<exists>e \<in> set es. lf \<in> set (entries (node e)))"
proof (induction es)
  case Nil
  show ?case by simp
next
  case (Cons e es)
  then show ?case by (cases e) auto
qed

lemma keys_shape:
  "keyed_at q (n :: 'v node) \<Longrightarrow> lf \<in> set (entries n) \<Longrightarrow> \<exists>r. Key lf = q @ r"
  "keyed_edges q (es :: 'v edge list) \<Longrightarrow> lf \<in> set (entries_below es) \<Longrightarrow>
     \<exists>e \<in> set es. \<exists>r. Key lf = q @ label e # r"
proof (induction n and es arbitrary: q and q rule: entries_entries_below.induct)
  case (1 lfo p es)
  from "1.prems"(2) consider "lfo = Some lf" | "lf \<in> set (entries_below es)"
    by (auto split: option.splits)
  then show ?case
  proof cases
    case 1
    with "1.prems"(1) show ?thesis by simp
  next
    case 2
    from "1.IH" [OF _ 2, of q] "1.prems"(1) show ?thesis by auto
  qed
next
  case 2
  then show ?case by simp
next
  case (3 l n es)
  from "3.prems"(2) consider "lf \<in> set (entries n)" | "lf \<in> set (entries_below es)" by auto
  then show ?case
  proof cases
    case 1
    have k: "keyed_at (q @ prefix n) n" and p: "prefix n \<noteq> []" "hd (prefix n) = l"
      using "3.prems"(1) by simp_all
    from "3.IH"(1) [OF k 1] obtain r where r: "Key lf = (q @ prefix n) @ r" by blast
    from p obtain tl where "prefix n = l # tl" by (cases "prefix n") auto
    with r have "Key lf = q @ l # (tl @ r)" by simp
    then show ?thesis by auto
  next
    case 2
    have "keyed_edges q es" using "3.prems"(1) by simp
    from "3.IH"(2) [OF this 2] show ?thesis by auto
  qed
qed

lemma less_append_same: "(q @ a) < (q @ b) \<longleftrightarrow> a < (b :: string)"
  by (induction q) simp_all

lemma key_less_extension: "q < q @ (l # r)" for q :: string
  using less_append_same [of q "[]" "l # r"] by simp

lemma key_less_label: "l < l' \<Longrightarrow> q @ l # r < q @ l' # r'" for q :: string
  by (simp add: less_append_same)

lemma keys_sorted:
  "sorted_node (n :: 'v node) \<Longrightarrow> keyed_at q n \<Longrightarrow> sorted_wrt (<) (map Key (entries n))"
  "sorted_wrt (<) (map label (es :: 'v edge list)) \<Longrightarrow> sorted_edges es \<Longrightarrow> keyed_edges q es \<Longrightarrow>
     sorted_wrt (<) (map Key (entries_below es))"
proof (induction n and es arbitrary: q and q rule: entries_entries_below.induct)
  case (1 lfo p es)
  have s: "sorted_wrt (<) (map Key (entries_below es))"
    using "1.IH" [of q] "1.prems" by simp
  show ?case
  proof (cases lfo)
    case None
    with s show ?thesis by simp
  next
    case (Some lf)
    have kq: "Key lf = q" using "1.prems"(2) Some by simp
    have "\<forall>x \<in> set (entries_below es). q < Key x"
    proof
      fix x assume "x \<in> set (entries_below es)"
      have "keyed_edges q es" using "1.prems"(2) by simp
      from keys_shape(2) [OF this \<open>x \<in> set (entries_below es)\<close>]
      obtain e :: "'v edge" and r where "Key x = q @ label e # r" by blast
      then show "q < Key x" by (simp add: key_less_extension)
    qed
    with s Some kq show ?thesis by simp
  qed
next
  case 2
  show ?case by simp
next
  case (3 l n es)
  have sn: "sorted_node n" and se: "sorted_edges es"
    and sl: "sorted_wrt (<) (map label es)" and lt: "\<forall>e \<in> set es. l < label e"
    using "3.prems"(1,2) by auto
  have k: "keyed_at (q @ prefix n) n" and p: "prefix n \<noteq> []" "hd (prefix n) = l"
    and ke: "keyed_edges q es"
    using "3.prems"(3) by simp_all
  have a: "sorted_wrt (<) (map Key (entries n))" using "3.IH"(1) [OF sn k] .
  have b: "sorted_wrt (<) (map Key (entries_below es))" using "3.IH"(2) [OF sl se ke] .
  have c: "\<forall>x \<in> set (entries n). \<forall>y \<in> set (entries_below es). Key x < Key y"
  proof (intro ballI)
    fix x y assume x: "x \<in> set (entries n)" and y: "y \<in> set (entries_below es)"
    from keys_shape(1) [OF k x] obtain r where r: "Key x = (q @ prefix n) @ r" by blast
    from p obtain tl where "prefix n = l # tl" by (cases "prefix n") auto
    with r have kx: "Key x = q @ l # (tl @ r)" by simp
    from keys_shape(2) [OF ke y] obtain e r' where e: "e \<in> set es" "Key y = q @ label e # r'"
      by blast
    from lt e(1) have "l < label e" by blast
    then show "Key x < Key y" unfolding kx e(2) by (rule key_less_label)
  qed
  from a b c show ?case by (simp add: sorted_wrt_append)
qed

lemma HasPrefix_Cons [simp]: "HasPrefix (a # x) (b # y) \<longleftrightarrow> a = b \<and> HasPrefix x y"
  by (auto simp: HasPrefix_def)

lemma HasPrefix_comparable:
  "HasPrefix k a \<Longrightarrow> HasPrefix k b \<Longrightarrow> HasPrefix a b \<or> HasPrefix b a"
  unfolding HasPrefix_iff by (metis append_eq_append_conv2)

lemma HasPrefix_trans: "HasPrefix k a \<Longrightarrow> HasPrefix a b \<Longrightarrow> HasPrefix k b"
  unfolding HasPrefix_iff by auto

lemma WalkPrefix_loop_induct [case_names step]:
  fixes P :: "'v node \<Rightarrow> string \<Rightarrow> ('v, 's) WalkFn \<Rightarrow> 's \<Rightarrow> bool"
  assumes "\<And>n search fn st.
      (\<And>c. search \<noteq> [] \<Longrightarrow> getEdge n (hd search) = Some c \<Longrightarrow> HasPrefix search (prefix c) \<Longrightarrow>
         P c (drop (length (prefix c)) search) fn st) \<Longrightarrow> P n search fn st"
  shows "P n search fn st"
proof (induction n search fn st rule: WalkPrefix_loop.induct)
  case (1 n search fn st)
  show ?case
  proof (rule assms)
    fix c assume a: "search \<noteq> []" "getEdge n (hd search) = Some c" "HasPrefix search (prefix c)"
    from "1.IH" [OF a] show "P c (drop (length (prefix c)) search) fn st" .
  qed
qed

lemma get_loop_induct [case_names step]:
  fixes P :: "'v node \<Rightarrow> string \<Rightarrow> bool"
  assumes "\<And>n search.
      (\<And>c. search \<noteq> [] \<Longrightarrow> getEdge n (hd search) = Some c \<Longrightarrow> HasPrefix search (prefix c) \<Longrightarrow>
         P c (drop (length (prefix c)) search)) \<Longrightarrow> P n search"
  shows "P n search"
proof (induction n search rule: get_loop.induct)
  case (1 n search)
  show ?case
  proof (rule assms)
    fix c assume a: "search \<noteq> []" "getEdge n (hd search) = Some c" "HasPrefix search (prefix c)"
    from "1.IH" [OF a] show "P c (drop (length (prefix c)) search)" .
  qed
qed

lemma WalkPrefix_loop_Nil: "WalkPrefix_loop n [] fn st = snd (recursiveWalk n fn st)"
  by (subst WalkPrefix_loop.simps) simp

lemma WalkPrefix_loop_step:
  "search \<noteq> [] \<Longrightarrow>
   WalkPrefix_loop n search fn st =
     (case getEdge n (hd search) of
        None \<Rightarrow> st
      | Some c \<Rightarrow>
          if HasPrefix search (prefix c) then
            WalkPrefix_loop c (drop (length (prefix c)) search) fn st
          else if HasPrefix (prefix c) search then snd (recursiveWalk c fn st)
          else st)"
  by (subst WalkPrefix_loop.simps) simp

lemma filter_entries_other:
  assumes "keyed_edges q es" "l \<notin> set (map label es)" "\<And>k. R k \<Longrightarrow> \<exists>r. k = q @ l # r"
  shows "filter (\<lambda>lf. R (Key lf)) (entries_below es) = []"
proof -
  have "\<not> R (Key lf)" if "lf \<in> set (entries_below es)" for lf
  proof
    assume "R (Key lf)"
    then obtain r where r: "Key lf = q @ l # r" using assms(3) by blast
    from keys_shape(2) [OF assms(1) that] obtain e r' where
      e: "e \<in> set es" "Key lf = q @ label e # r'" by blast
    from r e(2) have "label e = l" by simp
    with e(1) assms(2) show False by auto
  qed
  then show ?thesis by (simp add: filter_empty_conv)
qed

lemma filter_entries_step:
  assumes "sorted_node n" "keyed_at q n" "\<And>k. R k \<Longrightarrow> \<exists>r. k = q @ l # r"
  shows "filter (\<lambda>lf. R (Key lf)) (entries n) =
           (case getEdge n l of None \<Rightarrow> [] | Some c \<Rightarrow> filter (\<lambda>lf. R (Key lf)) (entries c))"
proof -
  have so: "sorted_wrt (<) (map label (edges n))" using assms(1) by (rule sorted_node_edges)
  have ke: "keyed_edges q (edges n)" using assms(2) by (rule keyed_at_edges)
  have own: "filter (\<lambda>lf. R (Key lf)) (case leaf n of Some lf \<Rightarrow> [lf] | None \<Rightarrow> []) = []"
  proof (cases "leaf n")
    case None
    then show ?thesis by simp
  next
    case (Some lf)
    have "Key lf = q" using assms(2) Some by (rule keyed_at_leaf)
    then have "\<not> R (Key lf)" using assms(3) [of q] by auto
    with Some show ?thesis by simp
  qed
  show ?thesis
  proof (cases "getEdge n l")
    case None
    then have "lookup (edges n) l = None" using getEdge_lookup [OF so] by simp
    then have "l \<notin> set (map label (edges n))" by (simp add: lookup_None_iff)
    from filter_entries_other [OF ke this assms(3)] own None
    show ?thesis by (simp add: entries_Node [of n])
  next
    case (Some c)
    obtain as bs where ab: "edges n = as @ Edge l c # bs"
      using getEdge_split [OF Some] by (elim exE conjE)
    have d: "distinct (map label (as @ Edge l c # bs))"
      using so ab strict_sorted_labels_distinct by metis
    have ka: "keyed_edges q as" and kb: "keyed_edges q bs"
      using ke ab by (simp_all add: keyed_edges_iff)
    have "l \<notin> set (map label as)" "l \<notin> set (map label bs)" using d by auto
    from filter_entries_other [OF ka this(1) assms(3)] filter_entries_other [OF kb this(2) assms(3)]
      own Some ab
    show ?thesis by (simp add: entries_Node [of n])
  qed
qed

lemma WalkPrefix_loop_filter:
  "never_stops fn \<Longrightarrow> sorted_node n \<Longrightarrow> keyed_at q n \<Longrightarrow>
   WalkPrefix_loop n search fn st =
     foldl (call_walk fn) st (filter (\<lambda>lf. HasPrefix (Key lf) (q @ search)) (entries n))"
proof (induction n search fn st arbitrary: q rule: WalkPrefix_loop_induct)
  case (step n search fn st)
  note ns = step.prems(1) and sn = step.prems(2) and kn = step.prems(3)
  show ?case
  proof (cases "search = []")
    case True
    have "filter (\<lambda>lf. HasPrefix (Key lf) q) (entries n) = entries n"
      using keys_shape(1) [OF kn] by (auto simp: filter_id_conv HasPrefix_iff)
    with True show ?thesis
      by (simp add: WalkPrefix_loop_Nil recursiveWalk_entries(1) [OF ns])
  next
    case ne: False
    let ?R = "\<lambda>k. HasPrefix k (q @ search)"
    have R: "\<exists>r. k = q @ hd search # r" if "?R k" for k
    proof -
      from that obtain r where "k = (q @ search) @ r" using HasPrefix_iff by blast
      with ne have "k = q @ hd search # (tl search @ r)" by simp
      then show ?thesis by blast
    qed
    note fs = filter_entries_step [OF sn kn, of ?R "hd search", OF R]
    show ?thesis
    proof (cases "getEdge n (hd search)")
      case None
      with ne fs show ?thesis by (simp add: WalkPrefix_loop_step)
    next
      case (Some c)
      obtain as bs where ab: "edges n = as @ Edge (hd search) c # bs"
        using getEdge_split [OF Some] by (elim exE conjE)
      have sc: "sorted_node c" using sn ab by (rule sorted_node_child)
      have kc: "keyed_at (q @ prefix c) c" using keyed_at_child [OF kn ab] by simp
      have f: "filter (\<lambda>lf. ?R (Key lf)) (entries n) = filter (\<lambda>lf. ?R (Key lf)) (entries c)"
        using fs Some by simp
      show ?thesis
      proof (cases "HasPrefix search (prefix c)")
        case True
        then have e: "(q @ prefix c) @ drop (length (prefix c)) search = q @ search"
          by (auto simp: HasPrefix_iff)
        from step.IH [OF ne Some True ns sc kc] e f ne Some True
        show ?thesis by (simp add: WalkPrefix_loop_step)
      next
        case False
        show ?thesis
        proof (cases "HasPrefix (prefix c) search")
          case True
          have "?R (Key lf)" if "lf \<in> set (entries c)" for lf
          proof -
            from keys_shape(1) [OF kc that] have "HasPrefix (Key lf) (q @ prefix c)"
              by (simp add: HasPrefix_iff)
            moreover have "HasPrefix (q @ prefix c) (q @ search)" using True by simp
            ultimately show ?thesis by (rule HasPrefix_trans)
          qed
          then have "filter (\<lambda>lf. ?R (Key lf)) (entries c) = entries c"
            by (simp add: filter_id_conv)
          with f ne Some False True show ?thesis
            by (simp add: WalkPrefix_loop_step recursiveWalk_entries(1) [OF ns])
        next
          case nn: False
          have "\<not> ?R (Key lf)" if "lf \<in> set (entries c)" for lf
          proof
            assume r: "?R (Key lf)"
            from keys_shape(1) [OF kc that] have "HasPrefix (Key lf) (q @ prefix c)"
              by (simp add: HasPrefix_iff)
            from HasPrefix_comparable [OF this r] False nn show False by simp
          qed
          then have "filter (\<lambda>lf. ?R (Key lf)) (entries c) = []"
            by (simp add: filter_empty_conv)
          with f ne Some False nn show ?thesis by (simp add: WalkPrefix_loop_step)
        qed
      qed
    qed
  qed
qed

lemma get_loop_stored:
  "sorted_node n \<Longrightarrow> keyed_at q n \<Longrightarrow>
   snd (get_loop n search) \<longleftrightarrow> (\<exists>lf \<in> set (entries n). Key lf = q @ search)"
proof (induction n search arbitrary: q rule: get_loop_induct)
  case (step n search)
  note sn = step.prems(1) and kn = step.prems(2)
  show ?case
  proof (cases "search = []")
    case True
    show ?thesis
    proof (cases "leaf n")
      case (Some lf)
      have "Key lf = q" using kn Some by (rule keyed_at_leaf)
      with True Some show ?thesis by (auto simp: get_loop_Nil entries_Node [of n])
    next
      case None
      have "Key lf \<noteq> q" if "lf \<in> set (entries_below (edges n))" for lf
        using keys_shape(2) [OF keyed_at_edges [OF kn] that] by auto
      with True None show ?thesis by (auto simp: get_loop_Nil entries_Node [of n])
    qed
  next
    case ne: False
    let ?R = "\<lambda>k. k = q @ search"
    have R: "\<exists>r. k = q @ hd search # r" if "?R k" for k
      using that ne by (cases search) auto
    note fs = filter_entries_step [OF sn kn, of ?R "hd search", OF R]
    have m: "(\<exists>lf \<in> set (entries n). Key lf = q @ search) \<longleftrightarrow>
             filter (\<lambda>lf. ?R (Key lf)) (entries n) \<noteq> []"
      by (auto simp: filter_empty_conv)
    show ?thesis
    proof (cases "getEdge n (hd search)")
      case None
      with ne fs m show ?thesis by (simp add: get_loop_step)
    next
      case (Some c)
      obtain as bs where ab: "edges n = as @ Edge (hd search) c # bs"
        using getEdge_split [OF Some] by (elim exE conjE)
      have sc: "sorted_node c" using sn ab by (rule sorted_node_child)
      have kc: "keyed_at (q @ prefix c) c" using keyed_at_child [OF kn ab] by simp
      have m': "(\<exists>lf \<in> set (entries n). Key lf = q @ search) \<longleftrightarrow>
                (\<exists>lf \<in> set (entries c). Key lf = q @ search)"
        using m fs Some by (auto simp: filter_empty_conv)
      show ?thesis
      proof (cases "HasPrefix search (prefix c)")
        case True
        then have e: "(q @ prefix c) @ drop (length (prefix c)) search = q @ search"
          by (auto simp: HasPrefix_iff)
        from step.IH [OF ne Some True sc kc] e m' ne Some True
        show ?thesis by (simp add: get_loop_step get_via_def)
      next
        case False
        have "Key lf \<noteq> q @ search" if "lf \<in> set (entries c)" for lf
        proof
          assume a: "Key lf = q @ search"
          from keys_shape(1) [OF kc that] obtain r where "Key lf = (q @ prefix c) @ r" by blast
          with a have "search = prefix c @ r" by simp
          with False show False by (simp add: HasPrefix_iff)
        qed
        with m' ne Some False show ?thesis by (auto simp: get_loop_step get_via_def)
      qed
    qed
  qed
qed

lemma foldl_record_keys:
  "foldl (call_walk record_keys) acc xs = acc @ map Key xs"
  by (induction xs arbitrary: acc) (simp_all add: call_walk_def record_keys_def)

lemma walk_descent_fails_nothing:
  "walk_descent_fails n search \<Longrightarrow> WalkPrefix_loop n search fn st = st"
proof (induction n search fn st rule: WalkPrefix_loop_induct)
  case (step n search fn st)
  from step.prems have ne: "search \<noteq> []"
    by (subst (asm) walk_descent_fails.simps) (simp split: if_splits)
  show ?case
  proof (cases "getEdge n (hd search)")
    case None
    with ne show ?thesis by (simp add: WalkPrefix_loop_step)
  next
    case (Some c)
    show ?thesis
    proof (cases "HasPrefix search (prefix c)")
      case True
      with step.prems ne Some
      have "walk_descent_fails c (drop (length (prefix c)) search)"
        by (subst (asm) walk_descent_fails.simps) simp
      from step.IH [OF ne Some True this] ne Some True show ?thesis
        by (simp add: WalkPrefix_loop_step)
    next
      case False
      with step.prems ne Some have "\<not> HasPrefix (prefix c) search"
        by (subst (asm) walk_descent_fails.simps) (simp split: if_splits)
      with ne Some False show ?thesis by (simp add: WalkPrefix_loop_step)
    qed
  qed
qed

text \<open>
  C5. On a well-formed tree, \<open>WalkPrefix(p, visit)\<close> with a visitor that never asks to stop
  calls \<open>visit\<close> on the stored entries whose key has \<open>p\<close> as a prefix, in the order in
  which the tree stores them; the keys visited are in strictly ascending lexicographic order
  (so each is visited once), and they are exactly the keys that \<open>Get\<close> finds and that have
  \<open>p\<close> as a prefix. When the descent for \<open>p\<close> fails, no call is made, whatever the
  visitor.
\<close>

theorem WalkPrefix_visits:
  assumes "wf_tree t"
  shows "sorted_wrt (<) (WalkPrefix t p record_keys []) \<and>
         set (WalkPrefix t p record_keys []) = {k. snd (Get t k) \<and> HasPrefix k p} \<and>
         (never_stops fn \<longrightarrow>
            WalkPrefix t p fn st =
              foldl (call_walk fn) st (filter (\<lambda>lf. HasPrefix (Key lf) p) (entries (root t)))) \<and>
         (walk_descent_fails (root t) p \<longrightarrow> WalkPrefix t p fn st = st)"
proof -
  have sn: "sorted_node (root t)" and kn: "keyed_at [] (root t)"
    using assms by (simp_all add: wf_tree_def)
  let ?F = "filter (\<lambda>lf. HasPrefix (Key lf) p) (entries (root t))"
  have w: "never_stops fn' \<Longrightarrow> WalkPrefix t p fn' st' = foldl (call_walk fn') st' ?F"
    for fn' :: "('a, 'c) WalkFn" and st'
    using WalkPrefix_loop_filter [OF _ sn kn, of fn' p st'] by (simp add: WalkPrefix_def)
  have "never_stops (record_keys :: ('a, string list) WalkFn)"
    by (simp add: never_stops_def record_keys_def)
  from w [OF this, of "[]"] have v: "WalkPrefix t p record_keys [] = map Key ?F"
    by (simp add: foldl_record_keys)
  have "sorted_wrt (<) (map Key (entries (root t)))" using keys_sorted(1) [OF sn kn] .
  then have "sorted_wrt (<) (filter (\<lambda>k. HasPrefix k p) (map Key (entries (root t))))"
    by (rule sorted_wrt_filter)
  then have s: "sorted_wrt (<) (map Key ?F)" by (simp add: filter_map comp_def)
  have g: "snd (Get t k) \<longleftrightarrow> (\<exists>lf \<in> set (entries (root t)). Key lf = k)" for k
    using get_loop_stored [OF sn kn, of k] by (simp add: Get_def)
  have m: "set (map Key ?F) = {k. snd (Get t k) \<and> HasPrefix k p}"
    using g by auto
  show ?thesis
    using s m v walk_descent_fails_nothing [of "root t" p fn st]
    by (simp add: WalkPrefix_def)
       (rule impI, rule WalkPrefix_loop_filter [OF _ sn kn, of fn p st, simplified])
qed

theorem WalkPrefix_visits_witness:
  "wf_tree tree_a_ab \<and> sorted_wrt (<) (WalkPrefix tree_a_ab ''a'' record_keys []) \<and>
   set (WalkPrefix tree_a_ab ''a'' record_keys []) =
     {k. snd (Get tree_a_ab k) \<and> HasPrefix k ''a''} \<and>
   WalkPrefix tree_a_ab ''a'' record_keys [] = [''a'', ''ab'']"
proof -
  have h: "wf_tree tree_a_ab" by (simp add: wf_tree_def tree_a_ab_def)
  have e: "WalkPrefix tree_a_ab ''a'' record_keys [] = [''a'', ''ab'']"
    by (simp add: eval_simps2 tree_a_ab_def WalkPrefix_def WalkPrefix_loop.simps
                  record_keys_def)
  note w = WalkPrefix_visits [OF h, of "''a''" record_keys "[]"]
  from w have s: "sorted_wrt (<) (WalkPrefix tree_a_ab ''a'' record_keys [])"
    by (rule conjunct1)
  from w have m: "set (WalkPrefix tree_a_ab ''a'' record_keys []) =
     {k. snd (Get tree_a_ab k) \<and> HasPrefix k ''a''}"
    by (elim conjE)
  from h s m e show ?thesis by (intro conjI)
qed

section \<open>Every operation preserves well-formedness\<close>

lemma keyed_at_Node: "keyed_at q (Node (leaf m) p' (edges m)) = keyed_at q m"
  by (cases m) simp

lemma sorted_node_Node': "sorted_node (Node lf p' (edges m)) = sorted_node m"
  by (cases m) simp

lemma insert_loop_keyed:
  "keyed_at q n \<Longrightarrow> s = q @ search \<Longrightarrow> insert_loop n sz s search v = Inr (n', sz', old, upd) \<Longrightarrow>
   keyed_at q n'"
proof (induction n sz s search v arbitrary: n' q rule: insert_loop_induct)
  case (step n sz s search v)
  note kn = step.prems(1) and sq = step.prems(2)
  have ke: "keyed_edges q (edges n)" using kn by (rule keyed_at_edges)
  have kl: "\<And>lf. leaf n = Some lf \<Longrightarrow> Key lf = q" using kn keyed_at_leaf by blast
  from step.prems(3) show ?case
  proof (cases rule: insert_loop_elim)
    case exhausted
    then show ?thesis using ke kl sq by (auto split: option.splits)
  next
    case new_edge
    have "keyed_edges q (Sort_edges (edges n @ [Edge (hd search) (Node (Some (LeafNode s v)) search [])]))"
      using ke new_edge(1) sq by (simp add: keyed_edges_iff Sort_edges_def)
    with kl new_edge(3) show ?thesis by (auto simp: addEdge_def split: option.splits)
  next
    case (descend c c' as bs)
    have kc: "keyed_at (q @ prefix c) c" using keyed_at_child [OF kn descend(4)] by simp
    have e: "s = (q @ prefix c) @ drop (length (prefix c)) search"
      using sq descend(3) by (auto simp: HasPrefix_iff)
    have kc': "keyed_at (q @ prefix c) c'" using step.IH [OF descend(1,2,3) kc e descend(5)] .
    have pc: "prefix c' = prefix c" using descend(5) by (rule insert_loop_prefix)
    have "keyed_edges q (as @ Edge (hd search) c' # bs)"
      using ke descend(4) kc' pc by (simp add: keyed_edges_iff)
    with kl descend(6) show ?thesis by (auto split: option.splits)
  next
    case (split c as bs)
    note kc = keyed_at_child [OF kn split(4)]
    obtain pre ps ss where f: "prefix c = pre @ ps" "search = pre @ ss" "ps \<noteq> []"
      "ss \<noteq> [] \<longrightarrow> hd ss \<noteq> hd ps"
      "split_node c s search v =
             (if ss = [] then
                Node (Some (LeafNode s v)) pre [Edge (hd ps) (Node (leaf c) ps (edges c))]
              else Node None pre
                (if hd ps \<le> hd ss
                 then [Edge (hd ps) (Node (leaf c) ps (edges c)),
                       Edge (hd ss) (Node (Some (LeafNode s v)) ss [])]
                 else [Edge (hd ss) (Node (Some (LeafNode s v)) ss []),
                       Edge (hd ps) (Node (leaf c) ps (edges c))]))"
      using split_node_form [OF split(3), of s v] by (elim exE conjE)
    have prene: "pre \<noteq> []"
    proof
      assume "pre = []"
      with f(1,2) kc split(1) f(4) show False by auto
    qed
    have hp: "hd pre = hd search" using prene f(2) by simp
    have "keyed_at (q @ prefix c) c" using kc by simp
    then have "keyed_at (q @ prefix c) (Node (leaf c) ps (edges c))" by (cases c) simp
    then have kT: "keyed_at (q @ pre @ ps) (Node (leaf c) ps (edges c))" by (simp only: f(1))
    have ksp: "prefix (split_node c s search v) = pre \<and>
               keyed_at (q @ pre) (split_node c s search v)"
      unfolding f(5) using kT f(2,3) sq by auto
    have "keyed_edges q (as @ Edge (hd search) (split_node c s search v) # bs)"
      using ke split(4) ksp prene hp by (simp add: keyed_edges_iff)
    with kl split(5) show ?thesis by (auto split: option.splits)
  qed
qed

lemma inv_top_child:
  assumes "inv_top r q lp p" "edges p = as @ Edge l n # bs"
  shows "inv_top False (path_of r q p) l n"
  using assms keyed_at_child [of "path_of r q p" p as l n bs] sorted_node_child [of p as l n bs]
  by (simp add: inv_top_def path_of_def)

lemma inv_top_replace:
  assumes "inv_top r q lp p" "edges p = as @ Edge l n # bs" "inv_top False (path_of r q p) l n'"
  shows "inv_top r q lp (Node (leaf p) (prefix p) (as @ Edge l n' # bs))"
proof -
  let ?p' = "Node (leaf p) (prefix p) (as @ Edge l n' # bs)"
  have sp: "sorted_node p" and kp: "keyed_at (path_of r q p) p"
    and pp: "\<not> r \<longrightarrow> prefix p \<noteq> [] \<and> hd (prefix p) = lp"
    using assms(1) by (simp_all add: inv_top_def)
  have so: "sorted_wrt (<) (map label (edges p))" using sp by (rule sorted_node_edges)
  have ch: "\<forall>e \<in> set (edges p). sorted_node (node e)" using sp sorted_node_children by blast
  have s': "sorted_node ?p'"
    using so ch assms(2,3) by (simp add: sorted_edges_iff inv_top_def)
  have ke: "keyed_edges (path_of r q p) (edges p)" using kp by (rule keyed_at_edges)
  have "keyed_edges (path_of r q p) (as @ Edge l n' # bs)"
    using ke assms(2,3) by (simp add: keyed_edges_iff inv_top_def path_of_def)
  moreover have "\<And>lf. leaf p = Some lf \<Longrightarrow> Key lf = path_of r q p"
    using kp keyed_at_leaf by blast
  ultimately have "keyed_at (path_of r q p) ?p'" by (auto split: option.splits)
  moreover have "path_of r q ?p' = path_of r q p" by (simp add: path_of_def)
  ultimately show ?thesis using s' pp by (simp add: inv_top_def)
qed

lemma inv_top_remove:
  assumes "inv_top r q lp p" "edges p = as @ Edge l n # bs"
  shows "inv_top r q lp (Node (leaf p) (prefix p) (as @ bs))"
proof -
  let ?p' = "Node (leaf p) (prefix p) (as @ bs)"
  have sp: "sorted_node p" and kp: "keyed_at (path_of r q p) p"
    and pp: "\<not> r \<longrightarrow> prefix p \<noteq> [] \<and> hd (prefix p) = lp"
    using assms(1) by (simp_all add: inv_top_def)
  have so: "sorted_wrt (<) (map label (as @ Edge l n # bs))"
    using sorted_node_edges [OF sp] assms(2) by simp
  have ch: "\<forall>e \<in> set (edges p). sorted_node (node e)" using sp sorted_node_children by blast
  have s': "sorted_node ?p'"
    using sorted_remove [OF so] ch assms(2) by (simp add: sorted_edges_iff)
  have ke: "keyed_edges (path_of r q p) (edges p)" using kp by (rule keyed_at_edges)
  have "keyed_edges (path_of r q p) (as @ bs)"
    using ke assms(2) by (simp add: keyed_edges_iff)
  moreover have "\<And>lf. leaf p = Some lf \<Longrightarrow> Key lf = path_of r q p"
    using kp keyed_at_leaf by blast
  ultimately have "keyed_at (path_of r q p) ?p'" by (auto split: option.splits)
  moreover have "path_of r q ?p' = path_of r q p" by (simp add: path_of_def)
  ultimately show ?thesis using s' pp by (simp add: inv_top_def)
qed

lemma inv_top_strip:
  assumes "inv_top r q lp m"
  shows "inv_top r q lp (Node None (prefix m) (edges m))" "inv_top r q lp (Node None (prefix m) [])"
proof -
  have s: "sorted_node (Node None (prefix m) (edges m))"
    using assms by (cases m) (simp add: inv_top_def)
  have "keyed_at (path_of r q m) m" using assms by (simp add: inv_top_def)
  then have k: "keyed_at (path_of r q m) (Node None (prefix m) (edges m))" by (cases m) simp
  have p: "path_of r q (Node None (prefix m) es) = path_of r q m" for es :: "'a edge list"
    by (simp add: path_of_def)
  show "inv_top r q lp (Node None (prefix m) (edges m))"
    using assms s k unfolding inv_top_def p by simp
  show "inv_top r q lp (Node None (prefix m) [])"
    using assms unfolding inv_top_def p by simp
qed

lemma inv_top_merged:
  assumes "inv_top False q lp m" "length (edges m) = 1"
  shows "inv_top False q lp (merged m)"
proof -
  from assms(2) obtain e where e: "edges m = [e]" by (cases "edges m") auto
  obtain l c where ec: "e = Edge l c" by (cases e)
  have em: "edges m = [] @ Edge l c # []" using e ec by simp
  have c: "inv_top False (q @ prefix m) l c"
    using inv_top_child [OF assms(1) em] by (simp add: path_of_def)
  have mg: "merged m = Node (leaf c) (prefix m @ prefix c) (edges c)"
    using e ec by (simp add: merged_def)
  have "prefix m \<noteq> []" "hd (prefix m) = lp" using assms(1) by (simp_all add: inv_top_def)
  moreover have "sorted_node (Node (leaf c) (prefix m @ prefix c) (edges c))"
    using c by (cases c) (simp add: inv_top_def)
  moreover have "keyed_at (q @ prefix m @ prefix c) (Node (leaf c) (prefix m @ prefix c) (edges c))"
    using c by (cases c) (simp add: inv_top_def path_of_def)
  ultimately show ?thesis
    unfolding mg by (simp add: inv_top_def path_of_def)
qed

lemma inv_top_merge_parent: "inv_top r q lp p1 \<Longrightarrow> inv_top r q lp (merge_parent r p1)"
  by (cases r) (simp_all add: merge_parent_def inv_top_merged)

lemma inv_top_plug:
  assumes "par_inv par n r q lp"
    and "\<And>p l. par = Some (r, p, l) \<Longrightarrow> inv_top False (path_of r q p) l n'"
    and "par = None \<Longrightarrow> inv_top True q lp n'"
  shows "inv_top r q lp (plug par n')"
proof (cases par)
  case None
  with assms(1,3) show ?thesis by (simp add: plug_def par_inv_def)
next
  case (Some x)
  obtain r' p l where x: "x = (r', p, l)" by (cases x)
  from assms(1) Some x have r: "r' = r" and ip: "inv_top r q lp p" and g: "getEdge p l = Some n"
    by (simp_all add: par_inv_def)
  obtain as bs where ab: "edges p = as @ Edge l n # bs" "edgeIndex (edges p) l = length as"
    using getEdge_split [OF g] by (elim exE conjE)
  have "inv_top False (path_of r q p) l n'" using assms(2) Some x r by simp
  from inv_top_replace [OF ip ab(1) this] show ?thesis
    by (simp add: Some x plug_def writeBack_split [OF ab])
qed

lemma par_inv_child:
  assumes "par_inv par n r q lp" "getEdge n l = Some c"
  shows "\<exists>q' lp'. par_inv (Some (par = None, n, l)) c (par = None) q' lp' \<and>
           (par = None \<longrightarrow> q' = q \<and> lp' = lp) \<and>
           (\<forall>p l0. par = Some (r, p, l0) \<longrightarrow> q' = path_of r q p \<and> lp' = l0)"
proof (cases par)
  case None
  with assms show ?thesis by (simp add: par_inv_def)
next
  case (Some x)
  obtain r' p l0 where x: "x = (r', p, l0)" by (cases x)
  from assms(1) Some x have r: "r' = r" and ip: "inv_top r q lp p" and g: "getEdge p l0 = Some n"
    by (simp_all add: par_inv_def)
  obtain as bs where ab: "edges p = as @ Edge l0 n # bs"
    using getEdge_split [OF g] by (elim exE conjE)
  from inv_top_child [OF ip ab] have "inv_top False (path_of r q p) l0 n" .
  with assms(2) Some x r show ?thesis by (simp add: par_inv_def)
qed

lemma inv_top_after_target:
  assumes "par_inv par n r q lp"
    and "\<And>r' q' lp'. inv_top r' q' lp' n \<Longrightarrow> inv_top r' q' lp' n1"
    and "par \<noteq> None \<Longrightarrow> detach \<or> (\<forall>q' lp'. inv_top False q' lp' n1 \<longrightarrow> inv_top False q' lp' n2)"
  shows "inv_top r q lp
           (case par of
              None \<Rightarrow> n1
            | Some (r', p, l) \<Rightarrow>
                merge_parent r' (if detach then delEdge p l else writeBack p l n2))"
proof (cases par)
  case None
  with assms(1,2) show ?thesis by (simp add: par_inv_def)
next
  case (Some x)
  obtain r' p l where x: "x = (r', p, l)" by (cases x)
  from assms(1) Some x have r: "r' = r" and ip: "inv_top r q lp p" and g: "getEdge p l = Some n"
    by (simp_all add: par_inv_def)
  obtain as bs where ab: "edges p = as @ Edge l n # bs" "edgeIndex (edges p) l = length as"
    using getEdge_split [OF g] by (elim exE conjE)
  have "inv_top r q lp (if detach then delEdge p l else writeBack p l n2)"
  proof (cases detach)
    case True
    with inv_top_remove [OF ip ab(1)] show ?thesis by (simp add: delEdge_split [OF ab])
  next
    case False
    have "inv_top False (path_of r q p) l n" using inv_top_child [OF ip ab(1)] .
    then have "inv_top False (path_of r q p) l n1" by (rule assms(2))
    with assms(3) False Some have "inv_top False (path_of r q p) l n2" by blast
    from inv_top_replace [OF ip ab(1) this] False show ?thesis
      by (simp add: writeBack_split [OF ab])
  qed
  then have "inv_top r q lp (merge_parent r (if detach then delEdge p l else writeBack p l n2))"
    by (rule inv_top_merge_parent)
  with Some x r show ?thesis by simp
qed

lemma delete_block_inv:
  assumes "par_inv par n r q lp" "delete_block par n sz = Inr (res, sz', old, f)"
  shows "inv_top r q lp res"
proof (cases "leaf n")
  case None
  with assms(2) show ?thesis by (simp add: delete_block_def)
next
  case (Some lf)
  let ?n1 = "Node None (prefix n) (edges n)"
  let ?n2 = "if length (edges n) = 1 then merged ?n1 else ?n1"
  have res: "res = (case par of
            None \<Rightarrow> ?n1
          | Some (r', p, l) \<Rightarrow>
              merge_parent r' (if edges n = [] then delEdge p l else writeBack p l ?n2))"
    using assms(2) unfolding delete_block_eq [OF Some]
    by (auto simp: Let_def merge_parent_def split: option.splits prod.splits)
  have a: "\<And>r' q' lp'. inv_top r' q' lp' n \<Longrightarrow> inv_top r' q' lp' ?n1"
    by (rule inv_top_strip(1))
  have "\<forall>q' lp'. inv_top False q' lp' ?n1 \<longrightarrow> inv_top False q' lp' ?n2"
    using inv_top_merged [of _ _ ?n1] by simp
  then have b: "par \<noteq> None \<Longrightarrow> edges n = [] \<or>
          (\<forall>q' lp'. inv_top False q' lp' ?n1 \<longrightarrow> inv_top False q' lp' ?n2)" by (rule disjI2)
  from inv_top_after_target [OF assms(1) a b] show ?thesis unfolding res .
qed

lemma deletePrefix_Nil_inv:
  fixes n :: "'v node"
  assumes "par_inv par n r q lp" "deletePrefix par n sz [] = Inr (res, sz', cnt)"
  shows "inv_top r q lp res"
proof -
  let ?n1 = "Node None (prefix n) [] :: 'v node"
  have res: "res = (case par of
            None \<Rightarrow> ?n1
          | Some (r', p, l) \<Rightarrow> merge_parent r' (if False then delEdge p l else writeBack p l ?n1))"
    using assms(2) unfolding deletePrefix_Nil
    by (auto simp: Let_def merge_parent_def split: option.splits prod.splits)
  have a: "\<And>r' q' lp'. inv_top r' q' lp' n \<Longrightarrow> inv_top r' q' lp' ?n1"
    by (rule inv_top_strip(2))
  have "par \<noteq> None \<Longrightarrow> False \<or>
          (\<forall>q' lp'. inv_top False q' lp' ?n1 \<longrightarrow> inv_top False q' lp' ?n1)" by blast
  from inv_top_after_target [OF assms(1) a this] show ?thesis unfolding res .
qed

lemma inv_top_unchanged: "par_inv par n r q lp \<Longrightarrow> inv_top r q lp (top par n)"
  by (auto simp: par_inv_def top_def split: option.splits)

lemma inv_top_descend:
  assumes "par_inv par n r q lp" "getEdge n l = Some c"
    and "\<And>r' q' lp'. par_inv (Some (par = None, n, l)) c r' q' lp' \<Longrightarrow> inv_top r' q' lp' n'"
  shows "inv_top r q lp (plug par n')"
proof (cases par)
  case None
  have r: "r" using assms(1) None by (simp add: par_inv_def)
  have "par_inv (Some (par = None, n, l)) c True q lp"
    using assms(1,2) None by (simp add: par_inv_def)
  from assms(3) [OF this] None r show ?thesis by (simp add: plug_def)
next
  case (Some x)
  obtain r' p l0 where x: "x = (r', p, l0)" by (cases x)
  from assms(1) Some x have r: "r' = r" and ip: "inv_top r q lp p" and g: "getEdge p l0 = Some n"
    by (simp_all add: par_inv_def)
  obtain as bs where ab: "edges p = as @ Edge l0 n # bs" "edgeIndex (edges p) l0 = length as"
    using getEdge_split [OF g] by (elim exE conjE)
  have "inv_top False (path_of r q p) l0 n" using inv_top_child [OF ip ab(1)] .
  then have "par_inv (Some (par = None, n, l)) c False (path_of r q p) l0"
    using assms(2) Some by (simp add: par_inv_def)
  from assms(3) [OF this] have "inv_top False (path_of r q p) l0 n'" .
  from inv_top_replace [OF ip ab(1) this] show ?thesis
    by (simp add: Some x plug_def writeBack_split [OF ab])
qed

lemma delete_loop_inv:
  "par_inv par n r q lp \<Longrightarrow> delete_loop par n sz search = Inr (res, sz', old, f) \<Longrightarrow>
   inv_top r q lp res"
proof (induction par n sz search arbitrary: r q lp res rule: delete_loop_induct)
  case (step par n sz search)
  note pi = step.prems(1) and d = step.prems(2)
  show ?case
  proof (cases "search = []")
    case True
    show ?thesis
    proof (cases "isLeaf n")
      case False
      with True d inv_top_unchanged [OF pi] show ?thesis by (simp add: delete_loop_Nil)
    next
      case leaf: True
      with True d have "delete_block par n sz = Inr (res, sz', old, f)"
        by (simp add: delete_loop_Nil)
      then show ?thesis by (rule delete_block_inv [OF pi])
    qed
  next
    case ne: False
    show ?thesis
    proof (cases "getEdge n (hd search)")
      case None
      with ne d inv_top_unchanged [OF pi] show ?thesis by (simp add: delete_loop_step)
    next
      case (Some c)
      show ?thesis
      proof (cases "HasPrefix search (prefix c)")
        case False
        with ne Some d inv_top_unchanged [OF pi] show ?thesis by (simp add: delete_loop_step)
      next
        case True
        let ?par' = "Some (par = None, n, hd search)"
        from d ne Some True obtain n' where
          r: "delete_loop ?par' c sz (drop (length (prefix c)) search) = Inr (n', sz', old, f)"
          and res: "res = plug par n'"
          by (auto simp: delete_loop_step split: sum.splits)
        have "inv_top r q lp (plug par n')"
          by (rule inv_top_descend [OF pi Some]) (rule step.IH [OF ne Some True _ r])
        with res show ?thesis by simp
      qed
    qed
  qed
qed

lemma deletePrefix_inv:
  "par_inv par n r q lp \<Longrightarrow> deletePrefix par n sz pfx = Inr (res, sz', cnt) \<Longrightarrow>
   inv_top r q lp res"
proof (induction par n sz pfx arbitrary: r q lp res rule: deletePrefix_induct)
  case (step par n sz pfx)
  note pi = step.prems(1) and d = step.prems(2)
  show ?case
  proof (cases "pfx = []")
    case True
    with d show ?thesis using deletePrefix_Nil_inv [OF pi] by simp
  next
    case ne: False
    show ?thesis
    proof (cases "getEdge n (hd pfx)")
      case None
      with ne d inv_top_unchanged [OF pi] show ?thesis by (simp add: deletePrefix_step)
    next
      case (Some c)
      show ?thesis
      proof (cases "HasPrefix (prefix c) pfx \<or> HasPrefix pfx (prefix c)")
        case False
        with ne Some d inv_top_unchanged [OF pi] show ?thesis by (simp add: deletePrefix_step)
      next
        case True
        let ?par' = "Some (par = None, n, hd pfx)"
        let ?pfx' = "if length (prefix c) > length pfx then [] else drop (length (prefix c)) pfx"
        from d ne Some True obtain n' where
          r: "deletePrefix ?par' c sz ?pfx' = Inr (n', sz', cnt)"
          and res: "res = plug par n'"
          by (auto simp: deletePrefix_step split: sum.splits)
        have "inv_top r q lp (plug par n')"
          by (rule inv_top_descend [OF pi Some]) (rule step.IH [OF ne Some True _ r])
        with res show ?thesis by simp
      qed
    qed
  qed
qed

lemma wf_tree_apply_op:
  assumes "wf_tree t"
  shows "\<exists>t'. apply_op t x = Inr t' \<and> wf_tree t'"
proof -
  have sn: "sorted_node (root t)" and kn: "keyed_at [] (root t)"
    using assms by (simp_all add: wf_tree_def)
  have pi: "par_inv None (root t) True [] (CHR ''0'')"
    using sn kn by (simp add: par_inv_def inv_top_def path_of_def)
  have ok: "par_ok None (root t)" by (simp add: par_ok_def)
  show ?thesis
  proof (cases x)
    case (OpInsert k v)
    obtain n' sz' old upd where
      i: "insert_loop (root t) (size_tree t) k k v = Inr (n', sz', old, upd)"
      using insert_loop_total [of "root t" "size_tree t" k k v] by (elim exE)
    have "sorted_node n'" using insert_loop_sorted [OF sn i] .
    moreover have "keyed_at [] n'" using insert_loop_keyed [OF kn _ i] by simp
    ultimately show ?thesis using i OpInsert by (simp add: Insert_def wf_tree_def)
  next
    case (OpDelete k)
    from delete_loop_count [OF ok, of "size_tree t" k] obtain res sz' old f where
      d: "delete_loop None (root t) (size_tree t) k = Inr (res, sz', old, f)"
      by (elim exE conjE)
    from delete_loop_inv [OF pi d] have "sorted_node res \<and> keyed_at [] res"
      by (simp add: inv_top_def path_of_def)
    with d OpDelete show ?thesis by (simp add: Delete_def wf_tree_def)
  next
    case (OpDeletePrefix p)
    from deletePrefix_count [OF ok, of "size_tree t" p] obtain res sz' cnt where
      d: "deletePrefix None (root t) (size_tree t) p = Inr (res, sz', cnt)"
      by (elim exE conjE)
    from deletePrefix_inv [OF pi d] have "sorted_node res \<and> keyed_at [] res"
      by (simp add: inv_top_def path_of_def)
    with d OpDeletePrefix show ?thesis by (simp add: DeletePrefix_def wf_tree_def)
  qed
qed

lemma wf_tree_run: "wf_tree t \<Longrightarrow> \<exists>t'. run t ops = Inr t' \<and> wf_tree t'"
proof (induction ops arbitrary: t)
  case Nil
  then show ?case by simp
next
  case (Cons x ops)
  from wf_tree_apply_op [OF Cons.prems, of x] obtain t1 where
    a: "apply_op t x = Inr t1" "wf_tree t1" by (elim exE conjE)
  from Cons.IH [OF a(2)] obtain t' where "run t1 ops = Inr t'" "wf_tree t'"
    by (elim exE conjE)
  with a(1) show ?case by simp
qed

lemma wf_tree_New: "wf_tree New"
  by (simp add: wf_tree_def New_def)

text \<open>
  Every tree built from \<open>New\<close> by \<open>Insert\<close>, \<open>Delete\<close> and \<open>DeletePrefix\<close> is
  well-formed (and none of the calls panics): the hypotheses \<open>sorted_node\<close> and \<open>wf_tree\<close>
  of the theorems above hold of every tree the program can build.
\<close>

lemma wf_tree_reachable: "\<exists>t. run New ops = Inr t \<and> wf_tree t"
  using wf_tree_run [OF wf_tree_New] .

section \<open>Invariant 3 and DeletePrefix\<close>

text \<open>
  \<open>Insert\<close> and \<open>Delete\<close> keep invariant 3: after any sequence of \<open>Insert\<close> and
  \<open>Delete\<close> calls on a new tree every node other than the root has a stored entry or at
  least two children.
\<close>

lemma compressed_edges_iff:
  "compressed_edges es \<longleftrightarrow> (\<forall>e \<in> set es. cinv False (node e))"
proof (induction es)
  case Nil
  show ?case by simp
next
  case (Cons e es)
  then show ?case by (cases e) (auto simp: cinv_def node_ok_def)
qed

lemma compressed_children: "compressed m \<Longrightarrow> \<forall>e \<in> set (edges m). cinv False (node e)"
  by (cases m) (simp add: compressed_edges_iff)

lemma cinv_children: "cinv r m \<Longrightarrow> \<forall>e \<in> set (edges m). cinv False (node e)"
  using compressed_children by (auto simp: cinv_def)

lemma cinv_False_Node:
  "cinv False (Node lf p es) \<longleftrightarrow>
     (lf \<noteq> None \<or> 2 \<le> length es) \<and> (\<forall>e \<in> set es. cinv False (node e))"
  by (auto simp: cinv_def node_ok_def isLeaf_def compressed_edges_iff)

lemma cinv_True_Node: "cinv True (Node lf p es) \<longleftrightarrow> (\<forall>e \<in> set es. cinv False (node e))"
  by (simp add: cinv_def compressed_edges_iff)

lemma cinv_split_node:
  assumes "\<not> HasPrefix search (prefix c)" "cinv False c"
  shows "cinv False (split_node c s search v)"
proof -
  obtain pre ps ss where f:
      "split_node c s search v =
             (if ss = [] then
                Node (Some (LeafNode s v)) pre [Edge (hd ps) (Node (leaf c) ps (edges c))]
              else Node None pre
                (if hd ps \<le> hd ss
                 then [Edge (hd ps) (Node (leaf c) ps (edges c)),
                       Edge (hd ss) (Node (Some (LeafNode s v)) ss [])]
                 else [Edge (hd ss) (Node (Some (LeafNode s v)) ss []),
                       Edge (hd ps) (Node (leaf c) ps (edges c))]))"
    using split_node_form [OF assms(1), of s v] by (elim exE conjE)
  have "cinv False (Node (leaf c) ps (edges c))"
    using assms(2) by (cases c) (simp add: cinv_False_Node)
  then show ?thesis unfolding f by (simp add: cinv_False_Node)
qed

lemma insert_loop_cinv:
  "cinv r n \<Longrightarrow> insert_loop n sz s search v = Inr (n', sz', old, upd) \<Longrightarrow> cinv r n'"
proof (induction n sz s search v arbitrary: n' r rule: insert_loop_induct)
  case (step n sz s search v)
  note cn = step.prems(1)
  have ch: "\<forall>e \<in> set (edges n). cinv False (node e)"
    using cn by (rule cinv_children)
  have ok: "\<not> r \<longrightarrow> leaf n \<noteq> None \<or> 2 \<le> length (edges n)"
    using cn by (simp add: cinv_def node_ok_def isLeaf_def)
  have I: "cinv r (Node lf p es)"
    if "\<forall>e \<in> set es. cinv False (node e)" "\<not> r \<longrightarrow> lf \<noteq> None \<or> 2 \<le> length es"
    for lf p es
    using that by (cases r) (simp_all add: cinv_False_Node cinv_True_Node)
  from step.prems(2) show ?case
  proof (cases rule: insert_loop_elim)
    case exhausted
    then show ?thesis using ch by (cases "leaf n") (auto intro!: I)
  next
    case new_edge
    show ?thesis unfolding new_edge(3) addEdge_def
      using ch ok by (intro I) (auto simp: Sort_edges_def cinv_False_Node)
  next
    case (descend c c' as bs)
    have "cinv False c" using ch descend(4) by simp
    from step.IH [OF descend(1,2,3) this descend(5)] have "cinv False c'" .
    then show ?thesis unfolding descend(6) using ch ok descend(4) by (intro I) auto
  next
    case (split c as bs)
    have "cinv False c" using ch split(4) by simp
    from cinv_split_node [OF split(3) this] have "cinv False (split_node c s search v)" .
    then show ?thesis unfolding split(5) using ch ok split(4) by (intro I) auto
  qed
qed

lemma cinv_merged:
  assumes "compressed m" "length (edges m) = 1"
  shows "cinv False (merged m)"
proof -
  from assms(2) obtain e where e: "edges m = [e]" by (cases "edges m") auto
  have "cinv False (node e)" using compressed_children [OF assms(1)] e by simp
  then have "cinv False (Node (leaf (node e)) (prefix m @ prefix (node e)) (edges (node e)))"
    by (cases "node e") (simp add: cinv_False_Node)
  then show ?thesis using e by (simp add: merged_def)
qed

lemma cinv_merge_parent:
  assumes "compressed p1" "\<not> r \<longrightarrow> isLeaf p1 \<or> 1 \<le> length (edges p1)"
  shows "cinv r (merge_parent r p1)"
proof (cases "\<not> r \<and> length (edges p1) = 1 \<and> \<not> isLeaf p1")
  case True
  then have "cinv False (merged p1)" using cinv_merged [OF assms(1)] by simp
  with True show ?thesis by (simp add: merge_parent_def)
next
  case False
  then have "merge_parent r p1 = p1" by (auto simp: merge_parent_def)
  moreover have "cinv r p1"
    using assms False by (cases r) (auto simp: cinv_def node_ok_def)
  ultimately show ?thesis by simp
qed

lemma cinv_replace:
  assumes "cinv r p" "edges p = as @ Edge l n # bs" "cinv False n'"
  shows "cinv r (Node (leaf p) (prefix p) (as @ Edge l n' # bs))"
proof -
  have ch: "\<forall>e \<in> set (edges p). cinv False (node e)"
    using assms(1) by (rule cinv_children)
  have ok: "\<not> r \<longrightarrow> leaf p \<noteq> None \<or> 2 \<le> length (edges p)"
    using assms(1) by (simp add: cinv_def node_ok_def isLeaf_def)
  show ?thesis using ch ok assms(2,3)
    by (cases r) (auto simp: cinv_False_Node cinv_True_Node)
qed

lemma delete_block_cinv:
  assumes "par_cinv par n r" "delete_block par n sz = Inr (res, sz', old, f)"
  shows "cinv r res"
proof (cases "leaf n")
  case None
  with assms(2) show ?thesis by (simp add: delete_block_def)
next
  case (Some lf)
  let ?n1 = "Node None (prefix n) (edges n)"
  let ?n2 = "if length (edges n) = 1 then merged ?n1 else ?n1"
  have res: "res = (case par of
            None \<Rightarrow> ?n1
          | Some (r', p, l) \<Rightarrow>
              merge_parent r' (if edges n = [] then delEdge p l else writeBack p l ?n2))"
    using assms(2) unfolding delete_block_eq [OF Some]
    by (auto simp: Let_def merge_parent_def split: option.splits prod.splits)
  show ?thesis
  proof (cases par)
    case None
    with assms(1) have "cinv True n" by (simp add: par_cinv_def)
    then have "cinv True ?n1" by (cases n) (simp add: cinv_True_Node)
    moreover have "r" using assms(1) None by (simp add: par_cinv_def)
    ultimately show ?thesis using res None by simp
  next
    case (Some x)
    obtain r' p l where x: "x = (r', p, l)" by (cases x)
    from assms(1) Some x have r: "r' = r" and cp: "cinv r p" and g: "getEdge p l = Some n"
      by (simp_all add: par_cinv_def)
    obtain as bs where ab: "edges p = as @ Edge l n # bs" "edgeIndex (edges p) l = length as"
      using getEdge_split [OF g] by (elim exE conjE)
    have ch: "\<forall>e \<in> set (edges p). cinv False (node e)"
      using cp by (rule cinv_children)
    have ok: "\<not> r \<longrightarrow> leaf p \<noteq> None \<or> 2 \<le> length (edges p)"
      using cp by (simp add: cinv_def node_ok_def isLeaf_def)
    have cn: "compressed n" using ch ab(1) by (simp add: cinv_def)
    then have cn1: "compressed ?n1" by (cases n) simp
    let ?p1 = "if edges n = [] then delEdge p l else writeBack p l ?n2"
    have "compressed ?p1 \<and> (\<not> r \<longrightarrow> isLeaf ?p1 \<or> 1 \<le> length (edges ?p1))"
    proof (cases "edges n = []")
      case True
      then show ?thesis using ch ok ab(1)
        by (auto simp: delEdge_split [OF ab] compressed_edges_iff isLeaf_def)
    next
      case False
      have "cinv False ?n2"
      proof (cases "length (edges n) = 1")
        case True
        with cinv_merged [OF cn1] show ?thesis by simp
      next
        case ne1: False
        have "length (edges n) \<noteq> 0" using False by simp
        with ne1 have "2 \<le> length (edges n)" by arith
        with cn1 ne1 show ?thesis by (simp add: cinv_def node_ok_def)
      qed
      from cinv_replace [OF cp ab(1) this] False
      have "cinv r ?p1" by (simp add: writeBack_split [OF ab])
      then show ?thesis by (auto simp: cinv_def node_ok_def)
    qed
    then have "cinv r (merge_parent r ?p1)" using cinv_merge_parent by blast
    with res Some x r show ?thesis by simp
  qed
qed

lemma cinv_unchanged: "par_cinv par n r \<Longrightarrow> cinv r (top par n)"
  by (auto simp: par_cinv_def top_def split: option.splits)

lemma cinv_descend:
  assumes "par_cinv par n r" "getEdge n l = Some c"
    and "\<And>r'. par_cinv (Some (par = None, n, l)) c r' \<Longrightarrow> cinv r' n'"
  shows "cinv r (plug par n')"
proof (cases par)
  case None
  have r: "r" using assms(1) None by (simp add: par_cinv_def)
  have "par_cinv (Some (par = None, n, l)) c True"
    using assms(1,2) None by (simp add: par_cinv_def)
  from assms(3) [OF this] None r show ?thesis by (simp add: plug_def)
next
  case (Some x)
  obtain r' p l0 where x: "x = (r', p, l0)" by (cases x)
  from assms(1) Some x have r: "r' = r" and cp: "cinv r p" and g: "getEdge p l0 = Some n"
    by (simp_all add: par_cinv_def)
  obtain as bs where ab: "edges p = as @ Edge l0 n # bs" "edgeIndex (edges p) l0 = length as"
    using getEdge_split [OF g] by (elim exE conjE)
  have "cinv False n" using cinv_children [OF cp] ab(1) by simp
  then have "par_cinv (Some (par = None, n, l)) c False"
    using assms(2) Some by (simp add: par_cinv_def)
  from assms(3) [OF this] have "cinv False n'" .
  from cinv_replace [OF cp ab(1) this] show ?thesis
    by (simp add: Some x plug_def writeBack_split [OF ab])
qed

lemma delete_loop_cinv:
  "par_cinv par n r \<Longrightarrow> delete_loop par n sz search = Inr (res, sz', old, f) \<Longrightarrow> cinv r res"
proof (induction par n sz search arbitrary: r res rule: delete_loop_induct)
  case (step par n sz search)
  note pi = step.prems(1) and d = step.prems(2)
  show ?case
  proof (cases "search = []")
    case True
    show ?thesis
    proof (cases "isLeaf n")
      case False
      with True d cinv_unchanged [OF pi] show ?thesis by (simp add: delete_loop_Nil)
    next
      case leaf: True
      with True d have "delete_block par n sz = Inr (res, sz', old, f)"
        by (simp add: delete_loop_Nil)
      then show ?thesis by (rule delete_block_cinv [OF pi])
    qed
  next
    case ne: False
    show ?thesis
    proof (cases "getEdge n (hd search)")
      case None
      with ne d cinv_unchanged [OF pi] show ?thesis by (simp add: delete_loop_step)
    next
      case (Some c)
      show ?thesis
      proof (cases "HasPrefix search (prefix c)")
        case False
        with ne Some d cinv_unchanged [OF pi] show ?thesis by (simp add: delete_loop_step)
      next
        case True
        let ?par' = "Some (par = None, n, hd search)"
        from d ne Some True obtain n' where
          r: "delete_loop ?par' c sz (drop (length (prefix c)) search) = Inr (n', sz', old, f)"
          and res: "res = plug par n'"
          by (auto simp: delete_loop_step split: sum.splits)
        have "cinv r (plug par n')"
          by (rule cinv_descend [OF pi Some]) (rule step.IH [OF ne Some True _ r])
        with res show ?thesis by simp
      qed
    qed
  qed
qed

lemma compressed_apply_op:
  assumes "compressed (root t)" "\<not> is_DeletePrefix x"
  shows "\<exists>t'. apply_op t x = Inr t' \<and> compressed (root t')"
proof (cases x)
  case (OpInsert k v)
  obtain n' sz' old upd where
    i: "insert_loop (root t) (size_tree t) k k v = Inr (n', sz', old, upd)"
    using insert_loop_total [of "root t" "size_tree t" k k v] by (elim exE)
  have "cinv True (root t)" using assms(1) by (simp add: cinv_def)
  from insert_loop_cinv [OF this i] have "compressed n'" by (simp add: cinv_def)
  with i OpInsert show ?thesis by (simp add: Insert_def)
next
  case (OpDelete k)
  have ok: "par_ok None (root t)" by (simp add: par_ok_def)
  from delete_loop_count [OF ok, of "size_tree t" k] obtain res sz' old f where
    d: "delete_loop None (root t) (size_tree t) k = Inr (res, sz', old, f)"
    by (elim exE conjE)
  have "par_cinv None (root t) True" using assms(1) by (simp add: par_cinv_def cinv_def)
  from delete_loop_cinv [OF this d] have "compressed res" by (simp add: cinv_def)
  with d OpDelete show ?thesis by (simp add: Delete_def)
next
  case (OpDeletePrefix p)
  with assms(2) show ?thesis by simp
qed

lemma compressed_run:
  "compressed (root t) \<Longrightarrow> \<forall>x \<in> set ops. \<not> is_DeletePrefix x \<Longrightarrow>
   \<exists>t'. run t ops = Inr t' \<and> compressed (root t')"
proof (induction ops arbitrary: t)
  case Nil
  then show ?case by simp
next
  case (Cons x ops)
  have "\<not> is_DeletePrefix x" using Cons.prems(2) by simp
  from compressed_apply_op [OF Cons.prems(1) this] obtain t1 where
    a: "apply_op t x = Inr t1" "compressed (root t1)" by (elim exE conjE)
  have "\<forall>x \<in> set ops. \<not> is_DeletePrefix x" using Cons.prems(2) by simp
  from Cons.IH [OF a(2) this] obtain t' where "run t1 ops = Inr t'" "compressed (root t')"
    by (elim exE conjE)
  with a(1) show ?case by simp
qed

lemma Insert_Delete_keep_invariant3:
  "\<forall>x \<in> set ops. \<not> is_DeletePrefix x \<Longrightarrow> \<exists>t. run New ops = Inr t \<and> compressed (root t)"
  by (rule compressed_run) (simp_all add: New_def)



text \<open>
  C1 fails on the code. \<open>deletePrefix\<close> empties the node it reaches but leaves its edge in
  the parent (\<open>Delete\<close> removes the edge with \<open>delEdge\<close>): after inserting \<open>a\<close> and \<open>b\<close>,
  \<open>DeletePrefix("a")\<close> leaves under the root a node with no stored entry and no child, next
  to the node of \<open>b\<close>. After inserting \<open>a\<close>, \<open>DeletePrefix("a")\<close> and inserting \<open>ab\<close>,
  the node of \<open>a\<close> has no stored entry and exactly one child.
\<close>

theorem DeletePrefix_breaks_invariant3:
  "run New [OpInsert ''a'' 1, OpInsert ''b'' 2, OpDeletePrefix ''a''] =
     Inr \<lparr>root = Node None []
                  [Edge CHR ''a'' (Node None ''a'' []),
                   Edge CHR ''b'' (Node (Some (LeafNode ''b'' (2::nat))) ''b'' [])],
          size_tree = 1\<rparr> \<and>
   \<not> compressed (Node None []
                  [Edge CHR ''a'' (Node None ''a'' []),
                   Edge CHR ''b'' (Node (Some (LeafNode ''b'' (2::nat))) ''b'' [])]) \<and>
   run New [OpInsert ''a'' 1, OpDeletePrefix ''a'', OpInsert ''ab'' 2] =
     Inr \<lparr>root = Node None []
                  [Edge CHR ''a'' (Node None ''a''
                     [Edge CHR ''b'' (Node (Some (LeafNode ''ab'' (2::nat))) ''b'' [])])],
          size_tree = 1\<rparr> \<and>
   \<not> compressed (Node None []
                  [Edge CHR ''a'' (Node None ''a''
                     [Edge CHR ''b'' (Node (Some (LeafNode ''ab'' (2::nat))) ''b'' [])])])"
  by (simp add: eval_simps2 isLeaf_def)

section \<open>DeletePrefix and its descent\<close>

lemma deletePrefix_target_Nil: "deletePrefix_target n [] = Some n"
  by (subst deletePrefix_target.simps) simp

lemma deletePrefix_target_step:
  "pfx \<noteq> [] \<Longrightarrow>
   deletePrefix_target n pfx =
     (case getEdge n (hd pfx) of
        None \<Rightarrow> None
      | Some c \<Rightarrow>
          if HasPrefix (prefix c) pfx \<or> HasPrefix pfx (prefix c) then
            deletePrefix_target c
              (if length (prefix c) > length pfx then [] else drop (length (prefix c)) pfx)
          else None)"
  by (subst deletePrefix_target.simps) (auto split: option.splits)

lemma deletePrefix_at_target:
  "deletePrefix_target n pfx = Some m \<Longrightarrow> deletePrefix par n sz pfx = Inr (res, sz', cnt) \<Longrightarrow>
   cnt = int (length (entries m)) \<and> sz' = sz - cnt"
proof (induction par n sz pfx arbitrary: res rule: deletePrefix_induct)
  case (step par n sz pfx)
  note t = step.prems(1) and d = step.prems(2)
  show ?case
  proof (cases "pfx = []")
    case True
    with t have "m = n" by (simp add: deletePrefix_target_Nil)
    with True d show ?thesis by (auto simp: deletePrefix_Nil)
  next
    case ne: False
    show ?thesis
    proof (cases "getEdge n (hd pfx)")
      case None
      with ne t show ?thesis by (simp add: deletePrefix_target_step)
    next
      case (Some c)
      show ?thesis
      proof (cases "HasPrefix (prefix c) pfx \<or> HasPrefix pfx (prefix c)")
        case False
        with ne Some t show ?thesis by (simp add: deletePrefix_target_step)
      next
        case True
        let ?par' = "Some (par = None, n, hd pfx)"
        let ?pfx' = "if length (prefix c) > length pfx then [] else drop (length (prefix c)) pfx"
        have t': "deletePrefix_target c ?pfx' = Some m"
          using t ne Some True by (simp add: deletePrefix_target_step)
        from d ne Some True obtain n' where
          r: "deletePrefix ?par' c sz ?pfx' = Inr (n', sz', cnt)"
          by (auto simp: deletePrefix_step split: sum.splits)
        from step.IH [OF ne Some True t' r] show ?thesis .
      qed
    qed
  qed
qed

lemma prefix_mismatch_target: "prefix_mismatch n pfx \<longleftrightarrow> deletePrefix_target n pfx = None"
proof (induction n pfx rule: deletePrefix_target.induct)
  case (1 n pfx)
  show ?case
  proof (cases "pfx = []")
    case True
    then show ?thesis
      by (subst prefix_mismatch.simps) (simp add: deletePrefix_target_Nil)
  next
    case ne: False
    show ?thesis
    proof (cases "getEdge n (hd pfx)")
      case None
      with ne show ?thesis
        by (subst prefix_mismatch.simps) (simp add: deletePrefix_target_step)
    next
      case (Some c)
      show ?thesis
      proof (cases "\<not> HasPrefix (prefix c) pfx \<and> \<not> HasPrefix pfx (prefix c)")
        case True
        with ne Some show ?thesis
          by (subst prefix_mismatch.simps) (simp add: deletePrefix_target_step)
      next
        case False
        let ?pfx' = "if length (prefix c) > length pfx then drop (length pfx) pfx
                    else drop (length (prefix c)) pfx"
        have a: "prefix_mismatch n pfx = prefix_mismatch c ?pfx'"
          using ne Some False by (subst prefix_mismatch.simps) auto
        have b: "deletePrefix_target n pfx = deletePrefix_target c ?pfx'"
          using ne Some False by (subst deletePrefix_target.simps) auto
        from "1.IH" [OF ne Some False] show ?thesis unfolding a b .
      qed
    qed
  qed
qed

text \<open>
  C2 as stated fails: in the tree that holds the key \<open>ab\<close>, the prefix \<open>a\<close> is a strict
  prefix of the prefix \<open>ab\<close> of the root's edge, and \<open>DeletePrefix\<close> returns 1 and empties
  the node of that edge.
\<close>

theorem DeletePrefix_inside_edge_counterexample:
  "getEdge (root tree_ab) (hd ''a'') = Some (Node (Some (LeafNode ''ab'' 1)) ''ab'' []) \<and>
   HasPrefix ''ab'' ''a'' \<and> ''a'' \<noteq> ''ab'' \<and>
   DeletePrefix tree_ab ''a'' =
     Inr (\<lparr>root = Node None [] [Edge CHR ''a'' (Node None ''ab'' [])], size_tree = 0\<rparr>, 1) \<and>
   DeletePrefix tree_ab ''a'' \<noteq> Inr (tree_ab, 0)"
  by (simp add: eval_simps2 tree_ab_def)

text \<open>
  C2, as the code has it. When the descent for the prefix \<open>p\<close> fails (at some node there is
  no edge for the next symbol of the rest of \<open>p\<close>, or the prefix of the edge's node and the
  rest of \<open>p\<close> are not one a prefix of the other), \<open>DeletePrefix\<close> returns 0 and the tree
  is unchanged. Otherwise the descent reaches a node, also when \<open>p\<close> ends strictly inside
  the prefix of that node's edge, and \<open>DeletePrefix\<close> returns the number of entries stored in
  the subtree of that node and takes it off the counter.
\<close>

theorem DeletePrefix_mismatch:
  "(prefix_mismatch (root t) p \<longrightarrow> DeletePrefix t p = Inr (t, 0)) \<and>
   (\<forall>m. deletePrefix_target (root t) p = Some m \<longrightarrow>
      (\<exists>t'. DeletePrefix t p = Inr (t', int (length (entries m))) \<and>
            Len t' = Len t - int (length (entries m)))) \<and>
   (prefix_mismatch (root t) p \<or> (\<exists>m. deletePrefix_target (root t) p = Some m))"
proof (intro conjI allI impI)
  assume "prefix_mismatch (root t) p"
  then show "DeletePrefix t p = Inr (t, 0)"
    using deletePrefix_descent_fails [of None "root t" p "size_tree t"]
    by (simp add: DeletePrefix_def par_ok_def top_def)
next
  fix m assume t: "deletePrefix_target (root t) p = Some m"
  have ok: "par_ok None (root t)" by (simp add: par_ok_def)
  from deletePrefix_count [OF ok, of "size_tree t" p] obtain res sz' cnt where
    d: "deletePrefix None (root t) (size_tree t) p = Inr (res, sz', cnt)"
    by (elim exE conjE)
  from deletePrefix_at_target [OF t d]
  have "cnt = int (length (entries m))" "sz' = size_tree t - cnt" by simp_all
  with d show "\<exists>t'. DeletePrefix t p = Inr (t', int (length (entries m))) \<and>
            Len t' = Len t - int (length (entries m))"
    by (simp add: DeletePrefix_def Len_def)
next
  show "prefix_mismatch (root t) p \<or> (\<exists>m. deletePrefix_target (root t) p = Some m)"
    by (cases "deletePrefix_target (root t) p") (simp_all add: prefix_mismatch_target)
qed


theorem DeletePrefix_mismatch_witness:
  "prefix_mismatch (root tree_ab) ''ac'' \<and> DeletePrefix tree_ab ''ac'' = Inr (tree_ab, 0) \<and>
   deletePrefix_target (root tree_ab) ''a'' = Some (Node (Some (LeafNode ''ab'' 1)) ''ab'' []) \<and>
   (\<exists>t'. DeletePrefix tree_ab ''a'' = Inr (t', 1) \<and> Len t' = Len tree_ab - 1)"
proof -
  have h: "prefix_mismatch (root tree_ab) ''ac''"
    by (simp add: eval_simps2 tree_ab_def)
  have g: "deletePrefix_target (root tree_ab) ''a'' = Some (Node (Some (LeafNode ''ab'' 1)) ''ab'' [])"
    by (simp add: eval_simps2 tree_ab_def deletePrefix_target.simps)
  have a: "DeletePrefix tree_ab ''ac'' = Inr (tree_ab, 0)"
    using DeletePrefix_mismatch [of tree_ab "''ac''"] h by (elim conjE) simp
  have "\<exists>t'. DeletePrefix tree_ab ''a'' =
               Inr (t', int (length (entries (Node (Some (LeafNode ''ab'' (1::nat))) ''ab'' [])))) \<and>
             Len t' =
               Len tree_ab - int (length (entries (Node (Some (LeafNode ''ab'' (1::nat))) ''ab'' [])))"
    using DeletePrefix_mismatch [of tree_ab "''a''"] g by (elim conjE) simp
  then have b: "\<exists>t'. DeletePrefix tree_ab ''a'' = Inr (t', 1) \<and> Len t' = Len tree_ab - 1"
    by simp
  from h a g b show ?thesis by (intro conjI)
qed

end
